theory Spec2Isabelle
  imports Main
begin

unbundle bit_operations_syntax

section \<open>The resizable segment tree of \<^verbatim>\<open>resizable_segment_tree.py\<close>\<close>

text \<open>
  The class \<^verbatim>\<open>ResizableSegmentTree\<close> keeps two fields: the combine operator \<open>func\<close>
  and the slot buffer \<open>tree\<close>, a Python list whose entries are either a value or
  \<^verbatim>\<open>None\<close>. Python integers are unbounded, so indices are \<open>int\<close> and the operators
  \<^verbatim>\<open>&\<close>, \<^verbatim>\<open>|\<close>, \<^verbatim>\<open>~\<close>, \<^verbatim>\<open><<\<close> are \<open>AND\<close>, \<open>OR\<close>, \<open>NOT\<close>, \<open>push_bit\<close> on \<open>int\<close>.
\<close>

record 'a rst =
  func :: "'a \<Rightarrow> 'a \<Rightarrow> 'a"
  tree :: "'a option list"

text \<open>
  The exceptions the code can raise. \<open>IndexError\<close> comes from list indexing,
  \<open>AssertionError\<close> from the \<^verbatim>\<open>assert\<close> statements of \<^verbatim>\<open>query\<close>. The combine operator
  is a function on values; what it does when it is handed \<^verbatim>\<open>None\<close> is outside of it
  (\<^verbatim>\<open>lambda a, b: a + b\<close> raises \<^verbatim>\<open>TypeError\<close>). The model stops at such a call with
  \<open>CombineOnNone\<close>, which makes the call observable.
\<close>

datatype error = IndexError | AssertionError | CombineOnNone

subsection \<open>Python list indexing\<close>

text \<open>
  \<^verbatim>\<open>xs[i]\<close> accepts \<open>-len \<le> i < len\<close>; a negative index counts from the end; any other
  index raises \<^verbatim>\<open>IndexError\<close>, for a read and for a write alike.
\<close>

definition py_index :: "'b list \<Rightarrow> int \<Rightarrow> nat option" where
  "py_index xs i =
     (let n = int (length xs) in
      if 0 \<le> i \<and> i < n then Some (nat i)
      else if - n \<le> i \<and> i < 0 then Some (nat (n + i))
      else None)"

definition list_get :: "'b list \<Rightarrow> int \<Rightarrow> error + 'b" where
  "list_get xs i = (case py_index xs i of None \<Rightarrow> Inl IndexError | Some n \<Rightarrow> Inr (xs ! n))"

definition list_set :: "'b list \<Rightarrow> int \<Rightarrow> 'b \<Rightarrow> error + 'b list" where
  "list_set xs i v = (case py_index xs i of None \<Rightarrow> Inl IndexError | Some n \<Rightarrow> Inr (xs[n := v]))"

text \<open>A call \<^verbatim>\<open>func(x, y)\<close> on two slot contents.\<close>

definition call :: "('a \<Rightarrow> 'a \<Rightarrow> 'a) \<Rightarrow> 'a option \<Rightarrow> 'a option \<Rightarrow> error + 'a" where
  "call f x y =
     (case x of None \<Rightarrow> Inl CombineOnNone
      | Some a \<Rightarrow> (case y of None \<Rightarrow> Inl CombineOnNone | Some b \<Rightarrow> Inr (f a b)))"

subsection \<open>\<^verbatim>\<open>__init__\<close>\<close>

text \<open>
  The inner \<^verbatim>\<open>while j & (k<<1)\<close> loop of the constructor. A loop that does not return
  has the value \<open>None\<close>; an exception is \<open>Some (Inl e)\<close>.
\<close>

partial_function (option) init_climb ::
  "('a \<Rightarrow> 'a \<Rightarrow> 'a) \<Rightarrow> 'a option list \<Rightarrow> int \<Rightarrow> int \<Rightarrow> (error + 'a option list) option" where
  "init_climb f tr j k =
     (if j AND push_bit 1 k \<noteq> 0 then
        (let p = (j AND NOT k) OR push_bit 1 k in
         case list_get tr (j AND NOT (push_bit 1 k)) of
           Inl e \<Rightarrow> Some (Inl e)
         | Inr x \<Rightarrow>
        (case list_get tr j of
           Inl e \<Rightarrow> Some (Inl e)
         | Inr y \<Rightarrow>
        (case call f x y of
           Inl e \<Rightarrow> Some (Inl e)
         | Inr v \<Rightarrow>
        (case list_set tr p (Some v) of
           Inl e \<Rightarrow> Some (Inl e)
         | Inr tr' \<Rightarrow> init_climb f tr' p (push_bit 1 k)))))
      else Some (Inr tr))"

declare init_climb.simps [code]

text \<open>The \<^verbatim>\<open>for i, value in enumerate(values)\<close> loop: \<open>i\<close> is the running index.\<close>

fun init_loop ::
  "('a \<Rightarrow> 'a \<Rightarrow> 'a) \<Rightarrow> 'a option list \<Rightarrow> int \<Rightarrow> 'a list \<Rightarrow> (error + 'a option list) option" where
  "init_loop f tr i [] = Some (Inr tr)"
| "init_loop f tr i (v # vs) =
     (let j = push_bit 1 i OR 1 in
      case list_set tr j (Some v) of
        Inl e \<Rightarrow> Some (Inl e)
      | Inr tr1 \<Rightarrow>
     (case init_climb f tr1 j 1 of
        None \<Rightarrow> None
      | Some (Inl e) \<Rightarrow> Some (Inl e)
      | Some (Inr tr2) \<Rightarrow> init_loop f tr2 (i + 1) vs))"

definition construct :: "('a \<Rightarrow> 'a \<Rightarrow> 'a) \<Rightarrow> 'a list \<Rightarrow> (error + 'a rst) option" where
  "construct f vs =
     (case init_loop f (replicate (push_bit 1 (length vs)) None) 0 vs of
        None \<Rightarrow> None
      | Some (Inl e) \<Rightarrow> Some (Inl e)
      | Some (Inr tr) \<Rightarrow> Some (Inr \<lparr>func = f, tree = tr\<rparr>))"

subsection \<open>\<^verbatim>\<open>__setitem__\<close>, \<^verbatim>\<open>__getitem__\<close>, \<^verbatim>\<open>__len__\<close>, \<^verbatim>\<open>append\<close>\<close>

text \<open>
  \<^verbatim>\<open>__setitem__\<close> writes into the buffer before it can raise, so an exception carries the
  buffer as it stands when the exception leaves the method: \<open>Inl (e, tr)\<close>.
  In \<^verbatim>\<open>tree[p] = func(tree[j & ~(k<<1)], tree[j | (k<<1)])\<close> Python evaluates the two
  reads left to right, then the call, then the write.
\<close>

partial_function (option) set_climb ::
  "('a \<Rightarrow> 'a \<Rightarrow> 'a) \<Rightarrow> 'a option list \<Rightarrow> int \<Rightarrow> int
     \<Rightarrow> (error \<times> 'a option list + 'a option list) option" where
  "set_climb f tr j k =
     (if j OR push_bit 1 k < int (length tr) then
        (let p = (j AND NOT k) OR push_bit 1 k in
         case list_get tr (j AND NOT (push_bit 1 k)) of
           Inl e \<Rightarrow> Some (Inl (e, tr))
         | Inr x \<Rightarrow>
        (case list_get tr (j OR push_bit 1 k) of
           Inl e \<Rightarrow> Some (Inl (e, tr))
         | Inr y \<Rightarrow>
        (case call f x y of
           Inl e \<Rightarrow> Some (Inl (e, tr))
         | Inr v \<Rightarrow>
        (case list_set tr p (Some v) of
           Inl e \<Rightarrow> Some (Inl (e, tr))
         | Inr tr' \<Rightarrow> set_climb f tr' p (push_bit 1 k)))))
      else Some (Inr tr))"

declare set_climb.simps [code]

definition setitem_tree ::
  "('a \<Rightarrow> 'a \<Rightarrow> 'a) \<Rightarrow> 'a option list \<Rightarrow> int \<Rightarrow> 'a
     \<Rightarrow> (error \<times> 'a option list + 'a option list) option" where
  "setitem_tree f tr i v =
     (let j = push_bit 1 i OR 1 in
      case list_set tr j (Some v) of
        Inl e \<Rightarrow> Some (Inl (e, tr))
      | Inr tr1 \<Rightarrow> set_climb f tr1 j 1)"

definition with_tree :: "'a rst \<Rightarrow> (error \<times> 'a option list + 'a option list) option
     \<Rightarrow> (error \<times> 'a rst + 'a rst) option" where
  "with_tree t r =
     (case r of
        None \<Rightarrow> None
      | Some (Inl (e, tr)) \<Rightarrow> Some (Inl (e, t\<lparr>tree := tr\<rparr>))
      | Some (Inr tr) \<Rightarrow> Some (Inr (t\<lparr>tree := tr\<rparr>)))"

definition setitem :: "'a rst \<Rightarrow> int \<Rightarrow> 'a \<Rightarrow> (error \<times> 'a rst + 'a rst) option" where
  "setitem t i v = with_tree t (setitem_tree (func t) (tree t) i v)"

definition getitem :: "'a rst \<Rightarrow> int \<Rightarrow> error + 'a option" where
  "getitem t i = list_get (tree t) (push_bit 1 i OR 1)"

definition len :: "'a rst \<Rightarrow> int" where
  "len t = drop_bit 1 (int (length (tree t)))"

definition append :: "'a rst \<Rightarrow> 'a \<Rightarrow> (error \<times> 'a rst + 'a rst) option" where
  "append t v =
     (let i = drop_bit 1 (int (length (tree t)));
          t1 = t\<lparr>tree := tree t @ [None, None]\<rparr>
      in setitem t1 i v)"

subsection \<open>\<^verbatim>\<open>query\<close>\<close>

text \<open>
  The \<^verbatim>\<open>while i < j\<close> loop, with the two accumulators \<open>left\<close> and \<open>right\<close>; it returns
  the accumulators it ends with.
\<close>

partial_function (option) query_loop ::
  "('a \<Rightarrow> 'a \<Rightarrow> 'a) \<Rightarrow> 'a option list \<Rightarrow> int \<Rightarrow> int \<Rightarrow> 'a option \<Rightarrow> 'a option \<Rightarrow> int
     \<Rightarrow> (error + 'a option \<times> 'a option) option" where
  "query_loop f tr i j left right k =
     (if i < j then
        (case (if i AND push_bit 1 k \<noteq> 0 then
                 (case list_get tr i of
                    Inl e \<Rightarrow> Inl e
                  | Inr x \<Rightarrow>
                      (case (case left of None \<Rightarrow> Inr x | Some l \<Rightarrow> map_sum id Some (call f left x)) of
                         Inl e \<Rightarrow> Inl e
                       | Inr left' \<Rightarrow> Inr (left', i + push_bit 1 k)))
               else Inr (left, i)) of
           Inl e \<Rightarrow> Some (Inl e)
         | Inr (left1, i1) \<Rightarrow>
        (case (if j AND push_bit 1 k \<noteq> 0 then
                 (let j' = j - push_bit 1 k in
                  case list_get tr j' of
                    Inl e \<Rightarrow> Inl e
                  | Inr x \<Rightarrow>
                      (case (case right of None \<Rightarrow> Inr x | Some r \<Rightarrow> map_sum id Some (call f x right)) of
                         Inl e \<Rightarrow> Inl e
                       | Inr right' \<Rightarrow> Inr (right', j')))
               else Inr (right, j)) of
           Inl e \<Rightarrow> Some (Inl e)
         | Inr (right1, j1) \<Rightarrow>
             query_loop f tr ((i1 AND NOT k) OR push_bit 1 k) ((j1 AND NOT k) OR push_bit 1 k)
               left1 right1 (push_bit 1 k)))
      else Some (Inr (left, right)))"

declare query_loop.simps [code]

definition query :: "'a rst \<Rightarrow> int \<Rightarrow> int \<Rightarrow> (error + 'a option) option" where
  "query t i j =
     (if \<not> (0 \<le> i \<and> i < len t) then Some (Inl AssertionError)
      else if \<not> (0 < j \<and> j \<le> len t) then Some (Inl AssertionError)
      else if \<not> i < j then Some (Inl AssertionError)
      else
        (case query_loop (func t) (tree t) (push_bit 1 i OR 1) (push_bit 1 j OR 1) None None 1 of
           None \<Rightarrow> None
         | Some (Inl e) \<Rightarrow> Some (Inl e)
         | Some (Inr (left, right)) \<Rightarrow>
             (if \<not> (left \<noteq> None \<or> right \<noteq> None) then Some (Inl AssertionError)
              else if left = None then Some (Inr right)
              else if right = None then Some (Inr left)
              else Some (map_sum id Some (call (func t) left right)))))"

section \<open>Reachable structures\<close>

text \<open>
  A structure is reachable when the constructor built it, or when \<^verbatim>\<open>append\<close> or a
  \<^verbatim>\<open>__setitem__\<close> that returned normally produced it from a reachable one.
  \<^verbatim>\<open>__getitem__\<close>, \<^verbatim>\<open>__len__\<close> and \<^verbatim>\<open>query\<close> write nothing. The buffer that a
  \<^verbatim>\<open>__setitem__\<close> leaves when it raises is not among them: it is the second component of
  \<open>Inl (e, t')\<close>, and what holds of it is stated on \<open>setitem\<close> itself.
\<close>

inductive reachable :: "'a rst \<Rightarrow> bool" where
  reach_construct: "construct f vs = Some (Inr t) \<Longrightarrow> reachable t"
| reach_append: "reachable t \<Longrightarrow> append t v = Some (Inr t') \<Longrightarrow> reachable t'"
| reach_setitem: "reachable t \<Longrightarrow> setitem t i v = Some (Inr t') \<Longrightarrow> reachable t'"

definition assoc :: "('a \<Rightarrow> 'a \<Rightarrow> 'a) \<Rightarrow> bool" where
  "assoc f \<longleftrightarrow> (\<forall>a b c. f (f a b) c = f a (f b c))"

section \<open>The shape of the buffer\<close>

text \<open>
  The coordinate of the node at level \<open>m\<close> with number \<open>a\<close>, counted from the left: leaves
  are at level 0, at the odd coordinates \<open>2a + 1\<close>; the node \<open>node m a\<close> covers the elements
  \<open>a * 2 ^ m\<close> to \<open>(a + 1) * 2 ^ m - 1\<close>, and its children are \<open>node (m - 1) (2a)\<close> and
  \<open>node (m - 1) (2a + 1)\<close>.
\<close>

definition node :: "nat \<Rightarrow> nat \<Rightarrow> int" where
  "node m a = 2 ^ m * (2 * int a + 1)"

text \<open>
  The same coordinate for any integer number \<open>z\<close>: the coordinates that \<^verbatim>\<open>__setitem__\<close>
  computes from a negative index are \<open>coord m z\<close> with \<open>z < 0\<close>.
\<close>

definition coord :: "nat \<Rightarrow> int \<Rightarrow> int" where
  "coord m z = 2 ^ m * (2 * z + 1)"

text \<open>The value a node holds over the elements \<open>xs\<close>: its two children combined.\<close>

fun node_val :: "('a \<Rightarrow> 'a \<Rightarrow> 'a) \<Rightarrow> 'a list \<Rightarrow> nat \<Rightarrow> nat \<Rightarrow> 'a" where
  "node_val f xs 0 a = xs ! a"
| "node_val f xs (Suc m) a = f (node_val f xs m (2 * a)) (node_val f xs m (2 * a + 1))"

text \<open>A node is complete when all the elements it covers exist.\<close>

definition complete :: "nat \<Rightarrow> nat \<Rightarrow> nat \<Rightarrow> bool" where
  "complete n m a \<longleftrightarrow> (a + 1) * 2 ^ m \<le> n"

definition slot_ok :: "('a \<Rightarrow> 'a \<Rightarrow> 'a) \<Rightarrow> 'a option list \<Rightarrow> 'a list \<Rightarrow> nat \<Rightarrow> nat \<Rightarrow> bool" where
  "slot_ok f tr xs m a \<longleftrightarrow>
     tr ! nat (node m a) = (if complete (length xs) m a then Some (node_val f xs m a) else None)"

definition slots_ok :: "('a \<Rightarrow> 'a \<Rightarrow> 'a) \<Rightarrow> 'a option list \<Rightarrow> 'a list \<Rightarrow> bool" where
  "slots_ok f tr xs \<longleftrightarrow>
     (tr \<noteq> [] \<longrightarrow> tr ! 0 = None) \<and>
     (\<forall>m a. node m a < int (length tr) \<longrightarrow> slot_ok f tr xs m a)"

text \<open>The invariant: the buffer \<open>tr\<close> holds the elements \<open>xs\<close>.\<close>

definition invar :: "('a \<Rightarrow> 'a \<Rightarrow> 'a) \<Rightarrow> 'a option list \<Rightarrow> 'a list \<Rightarrow> bool" where
  "invar f tr xs \<longleftrightarrow> length tr = 2 * length xs \<and> slots_ok f tr xs"

text \<open>
  The buffer during a climb from the leaf of element \<open>i\<close> that has reached level \<open>m\<close>:
  only the complete ancestors of that leaf above level \<open>m\<close> may still be out of date.
\<close>

definition climbing :: "('a \<Rightarrow> 'a \<Rightarrow> 'a) \<Rightarrow> 'a option list \<Rightarrow> 'a list \<Rightarrow> nat \<Rightarrow> nat \<Rightarrow> bool" where
  "climbing f tr xs i m \<longleftrightarrow>
     (tr \<noteq> [] \<longrightarrow> tr ! 0 = None) \<and>
     (\<forall>m' a'. node m' a' < int (length tr) \<longrightarrow>
        (m < m' \<and> a' = i div 2 ^ m' \<and> complete (length xs) m' a') \<or> slot_ok f tr xs m' a')"

section \<open>The query loop on node numbers\<close>

text \<open>Combining two accumulators, either of which may be empty.\<close>

definition oplus :: "('a \<Rightarrow> 'a \<Rightarrow> 'a) \<Rightarrow> 'a option \<Rightarrow> 'a option \<Rightarrow> 'a option" where
  "oplus f x y =
     (case x of None \<Rightarrow> y | Some a \<Rightarrow> (case y of None \<Rightarrow> Some a | Some b \<Rightarrow> Some (f a b)))"

text \<open>The left-to-right fold of a list, \<open>None\<close> for the empty list.\<close>

definition ofold :: "('a \<Rightarrow> 'a \<Rightarrow> 'a) \<Rightarrow> 'a list \<Rightarrow> 'a option" where
  "ofold f vs = (case vs of [] \<Rightarrow> None | x # ys \<Rightarrow> Some (foldl f x ys))"

definition seg :: "'a list \<Rightarrow> nat \<Rightarrow> nat \<Rightarrow> 'a list" where
  "seg xs l r = take (r - l) (drop l xs)"

text \<open>
  The loop of \<^verbatim>\<open>query\<close> with the two boundaries as node numbers \<open>a\<close> and \<open>b\<close> at level
  \<open>m\<close>, over the elements instead of the buffer.
\<close>

function qabs ::
  "('a \<Rightarrow> 'a \<Rightarrow> 'a) \<Rightarrow> 'a list \<Rightarrow> nat \<Rightarrow> nat \<Rightarrow> nat \<Rightarrow> 'a option \<Rightarrow> 'a option
     \<Rightarrow> 'a option \<times> 'a option" where
  "qabs f xs m a b l r =
     (if a < b then
        qabs f xs (Suc m) ((if odd a then a + 1 else a) div 2) (b div 2)
          (if odd a then oplus f l (Some (node_val f xs m a)) else l)
          (if odd b then oplus f (Some (node_val f xs m (b - 1))) r else r)
      else (l, r))"
  by pat_completeness auto
termination
  by (relation "measure (\<lambda>(f, xs, m, a, b, l, r). b)") auto

declare qabs.simps [simp del]

section \<open>The structures of the worked examples\<close>

text \<open>The buffer the constructor builds from \<^verbatim>\<open>[1, 2, 3, 4, 5, 6]\<close> with integer addition.\<close>

definition ex6 :: "int rst" where
  "ex6 = \<lparr>func = (+),
     tree = [None, Some 1, Some 3, Some 2, Some 10, Some 3, Some 7, Some 4, None,
             Some 5, Some 11, Some 6]\<rparr>"

text \<open>The same after \<^verbatim>\<open>append(7)\<close>.\<close>

definition ex7 :: "int rst" where
  "ex7 = \<lparr>func = (+),
     tree = [None, Some 1, Some 3, Some 2, Some 10, Some 3, Some 7, Some 4, None,
             Some 5, Some 11, Some 6, None, Some 7]\<rparr>"

text \<open>The buffer as \<^verbatim>\<open>t[2] = 15\<close> leaves it when it raises on \<open>ex7\<close>.\<close>

definition ex7_raised :: "int rst" where
  "ex7_raised = \<lparr>func = (+),
     tree = [None, Some 1, Some 3, Some 2, Some 22, Some 15, Some 19, Some 4, None,
             Some 5, Some 11, Some 6, None, Some 7]\<rparr>"

text \<open>Five strings under concatenation, which is associative and not commutative.\<close>

definition exs :: "string rst" where
  "exs = \<lparr>func = (@),
     tree = [None, Some ''a'', Some ''ab'', Some ''b'', Some ''abcd'', Some ''c'', Some ''cd'',
             Some ''d'', None, Some ''e'']\<rparr>"

text \<open>Two elements, and the buffer as \<^verbatim>\<open>t[-1] = 9\<close> leaves it when it raises.\<close>

definition ex2 :: "int rst" where
  "ex2 = \<lparr>func = (+), tree = [None, Some 1, Some 3, Some 2]\<rparr>"

definition ex2_raised :: "int rst" where
  "ex2_raised = \<lparr>func = (+), tree = [None, Some 1, Some 10, Some 9]\<rparr>"


text \<open>
  Five elements, and the buffer as \<^verbatim>\<open>t[-1] = 5\<close> leaves it when it raises: the elements
  are as before, slot 8 holds a value and slot 6 no longer holds \<open>3 + 4\<close>.
\<close>

definition ex5 :: "int rst" where
  "ex5 = \<lparr>func = (+),
     tree = [None, Some 1, Some 3, Some 2, Some 10, Some 3, Some 7, Some 4, None, Some 5]\<rparr>"

definition ex5_raised :: "int rst" where
  "ex5_raised = \<lparr>func = (+),
     tree = [None, Some 1, Some 3, Some 2, Some 10, Some 3, Some 19, Some 4, Some 9, Some 5]\<rparr>"

section \<open>Lemmas\<close>

lemma node_pos: "0 < node m a"
  by (simp add: node_def)

lemma or_exp_int: "(x::int) OR 2 ^ n = (if bit x n then x else x + 2 ^ n)"
  using set_bit_eq [of n x] by (simp add: set_bit_eq_or push_bit_eq_mult)

lemma and_not_exp_int: "(x::int) AND NOT (2 ^ n) = (if bit x n then x - 2 ^ n else x)"
  using unset_bit_eq [of n x] by (simp add: unset_bit_eq_and_not push_bit_eq_mult)

lemma and_exp_int: "(x::int) AND 2 ^ n \<noteq> 0 \<longleftrightarrow> bit x n"
  by (simp add: and_exp_eq_0_iff_not_bit)

lemma node_coord: "node m a = coord m (int a)"
  by (simp add: node_def coord_def)

lemma coord_div_same: "coord m z div 2 ^ m = 2 * z + 1"
  by (simp add: coord_def)

lemma coord_div_Suc: "coord m z div 2 ^ Suc m = z"
proof -
  have "coord m z = z * 2 ^ Suc m + 2 ^ m" by (simp add: coord_def algebra_simps)
  then show ?thesis by (simp add: div_mult_self3)
qed

lemma bit_coord_same: "bit (coord m z) m"
  by (simp add: bit_iff_odd coord_div_same)

lemma bit_coord_Suc: "bit (coord m z) (Suc m) \<longleftrightarrow> odd z"
  by (simp only: bit_iff_odd coord_div_Suc)

lemma shift_k: "push_bit 1 ((2::int) ^ m) = 2 ^ Suc m"
  by (simp add: push_bit_eq_mult)

lemma coord_left: "coord m z AND NOT (2 ^ Suc m) = coord m (2 * (z div 2))"
proof -
  have "coord m z AND NOT (2 ^ Suc m) = (if odd z then coord m z - 2 ^ Suc m else coord m z)"
    unfolding and_not_exp_int bit_coord_Suc ..
  also have "\<dots> = coord m (2 * (z div 2))"
  proof (cases "odd z")
    case True
    then obtain b where "z = 2 * b + 1" by (auto elim: oddE)
    then show ?thesis by (simp add: coord_def algebra_simps)
  next
    case False
    then show ?thesis by simp
  qed
  finally show ?thesis .
qed

lemma coord_right: "coord m z OR 2 ^ Suc m = coord m (2 * (z div 2) + 1)"
proof -
  have "coord m z OR 2 ^ Suc m = (if odd z then coord m z else coord m z + 2 ^ Suc m)"
    unfolding or_exp_int bit_coord_Suc ..
  also have "\<dots> = coord m (2 * (z div 2) + 1)"
  proof (cases "odd z")
    case True
    then show ?thesis by simp
  next
    case False
    then obtain b where "z = 2 * b" by (auto elim: evenE)
    then show ?thesis by (simp add: coord_def algebra_simps)
  qed
  finally show ?thesis .
qed

lemma coord_parent: "(coord m z AND NOT (2 ^ m)) OR 2 ^ Suc m = coord (Suc m) (z div 2)"
proof -
  have 1: "coord m z AND NOT (2 ^ m) = z * 2 ^ Suc m"
    unfolding and_not_exp_int using bit_coord_same [of m z]
    by (simp add: coord_def algebra_simps)
  have 3: "bit (z * 2 ^ Suc m) (Suc m) \<longleftrightarrow> odd z"
    by (simp only: bit_iff_odd nonzero_mult_div_cancel_right) simp
  have "(coord m z AND NOT (2 ^ m)) OR 2 ^ Suc m =
      (if odd z then z * 2 ^ Suc m else z * 2 ^ Suc m + 2 ^ Suc m)"
    unfolding 1 or_exp_int 3 ..
  also have "\<dots> = coord (Suc m) (z div 2)"
  proof (cases "odd z")
    case True
    then obtain b where "z = 2 * b + 1" by (auto elim: oddE)
    then show ?thesis by (simp add: coord_def algebra_simps)
  next
    case False
    then obtain b where "z = 2 * b" by (auto elim: evenE)
    then show ?thesis by (simp add: coord_def algebra_simps)
  qed
  finally show ?thesis .
qed

lemma node_add: "node m (a + 1) = node m a + 2 ^ Suc m"
  by (simp add: node_def algebra_simps)

lemma node_test: "node m a AND 2 ^ Suc m \<noteq> 0 \<longleftrightarrow> odd a"
  unfolding node_coord by (simp only: and_exp_int bit_coord_Suc even_of_nat_iff)

lemma node_left: "node m a AND NOT (2 ^ Suc m) = node m (2 * (a div 2))"
  unfolding node_coord coord_left by (simp add: zdiv_int)

lemma node_right: "node m a OR 2 ^ Suc m = node m (2 * (a div 2) + 1)"
  unfolding node_coord coord_right by (simp add: zdiv_int add.commute)

lemma node_parent: "(node m a AND NOT (2 ^ m)) OR 2 ^ Suc m = node (Suc m) (a div 2)"
  unfolding node_coord coord_parent by (simp add: zdiv_int)

lemma node_less: "node m a < node m b \<longleftrightarrow> a < b"
proof -
  have "node m a < node m b \<longleftrightarrow> 2 * int a + 1 < 2 * int b + 1"
    unfolding node_def by (simp only: mult_less_cancel_left_pos zero_less_power zero_less_numeral)
  also have "\<dots> \<longleftrightarrow> a < b" by linarith
  finally show ?thesis .
qed

lemma node_even_iff: "even (node m a) \<longleftrightarrow> m \<noteq> 0"
  by (cases m) (simp_all add: node_def)

lemma node_inj: "node m a = node m' a' \<Longrightarrow> m = m' \<and> a = a'"
proof (induction m arbitrary: m')
  case 0
  have "odd (node 0 a)" by (simp add: node_even_iff)
  with 0 have "odd (node m' a')" by simp
  then have "m' = 0" by (simp add: node_even_iff)
  with 0 show ?case by (simp add: node_def)
next
  case (Suc m)
  have "even (node (Suc m) a)" by (simp add: node_even_iff)
  with Suc.prems have "even (node m' a')" by simp
  then have "m' \<noteq> 0" by (simp add: node_even_iff)
  then obtain n where m': "m' = Suc n" by (cases m') auto
  with Suc.prems have "node m a = node n a'" by (simp add: node_def)
  with Suc.IH m' show ?case by simp
qed

lemma node_exists: "0 < c \<Longrightarrow> \<exists>m a. c = node m a"
proof (induction "nat c" arbitrary: c rule: less_induct)
  case less
  show ?case
  proof (cases "even c")
    case True
    then obtain d where d: "c = 2 * d" by (auto elim: evenE)
    with less.prems have "0 < d" "nat d < nat c" by auto
    with less.hyps obtain m a where "d = node m a" by blast
    with d have "c = node (Suc m) a" by (simp add: node_def)
    then show ?thesis by blast
  next
    case False
    then obtain d where d: "c = 2 * d + 1" by (auto elim: oddE)
    with less.prems have "0 \<le> d" by auto
    with d have "c = node 0 (nat d)" by (simp add: node_def)
    then show ?thesis by blast
  qed
qed


subsection \<open>Complete subtrees\<close>

lemma complete_children:
  "complete n (Suc m) b \<longleftrightarrow> complete n m (2 * b + 1)"
  by (simp add: complete_def algebra_simps)

lemma complete_left: "complete n m (Suc a) \<Longrightarrow> complete n m a"
  by (simp add: complete_def algebra_simps)

lemma complete_node_less: "complete n m a \<Longrightarrow> node m a < 2 * int n"
proof -
  assume "complete n m a"
  then have "int ((a + 1) * 2 ^ m) \<le> int n" unfolding complete_def by (rule iffD2 [OF of_nat_le_iff])
  then have "2 ^ m + int a * 2 ^ m \<le> int n" by (simp add: algebra_simps)
  then have "2 * (2 ^ m + int a * 2 ^ m) \<le> 2 * int n" by simp
  moreover have "node m a < 2 * (2 ^ m + int a * 2 ^ m)" by (simp add: node_def algebra_simps)
  ultimately show ?thesis by (rule less_le_trans [rotated])
qed

lemma incomplete_parent:
  "\<not> complete n m a \<Longrightarrow> \<not> complete n (Suc m) (a div 2)"
proof -
  assume "\<not> complete n m a"
  then have "n < (a + 1) * 2 ^ m" by (simp add: complete_def)
  also have "\<dots> \<le> (2 * (a div 2) + 2) * 2 ^ m"
    by (rule mult_le_mono1) presburger
  also have "\<dots> = (a div 2 + 1) * 2 ^ Suc m" by (simp add: algebra_simps)
  finally show ?thesis by (simp add: complete_def)
qed

lemma div_pow_Suc: "(i::nat) div 2 ^ Suc m = (i div 2 ^ m) div 2"
  by (simp only: power_Suc2 div_mult2_eq)

lemma incomplete_above:
  "\<not> complete n m (i div 2 ^ m) \<Longrightarrow> m \<le> m' \<Longrightarrow> \<not> complete n m' (i div 2 ^ m')"
proof (induction m' )
  case 0
  then show ?case by simp
next
  case (Suc m')
  show ?case
  proof (cases "m = Suc m'")
    case True
    with Suc.prems show ?thesis by simp
  next
    case False
    with Suc have "\<not> complete n m' (i div 2 ^ m')" by simp
    then show ?thesis unfolding div_pow_Suc by (rule incomplete_parent)
  qed
qed

lemma climbing_finish:
  assumes "climbing f tr xs i m" and "\<not> complete (length xs) (Suc m) (i div 2 ^ Suc m)"
  shows "slots_ok f tr xs"
  unfolding slots_ok_def
proof (intro conjI allI impI)
  show "tr \<noteq> [] \<Longrightarrow> tr ! 0 = None" using assms(1) by (simp add: climbing_def)
next
  fix m' a' assume lt: "node m' a' < int (length tr)"
  with assms(1) have "(m < m' \<and> a' = i div 2 ^ m' \<and> complete (length xs) m' a') \<or> slot_ok f tr xs m' a'"
    unfolding climbing_def by blast
  moreover have "\<not> (m < m' \<and> a' = i div 2 ^ m' \<and> complete (length xs) m' a')"
    using incomplete_above [OF assms(2), of m'] by auto
  ultimately show "slot_ok f tr xs m' a'" by blast
qed

lemma climbing_step:
  assumes cl: "climbing f tr xs i m"
    and lt: "node (Suc m) (i div 2 ^ Suc m) < int (length tr)"
    and co: "complete (length xs) (Suc m) (i div 2 ^ Suc m)"
  shows "climbing f (tr[nat (node (Suc m) (i div 2 ^ Suc m)) := Some (node_val f xs (Suc m) (i div 2 ^ Suc m))])
           xs i (Suc m)"
  unfolding climbing_def
proof (intro conjI allI impI)
  let ?p = "node (Suc m) (i div 2 ^ Suc m)"
  let ?tr = "tr[nat ?p := Some (node_val f xs (Suc m) (i div 2 ^ Suc m))]"
  have p0: "nat ?p \<noteq> 0" using node_pos [of "Suc m" "i div 2 ^ Suc m"] by simp
  show "?tr \<noteq> [] \<Longrightarrow> ?tr ! 0 = None"
    using cl p0 by (simp add: climbing_def nth_list_update)
  fix m' a' assume "node m' a' < int (length ?tr)"
  then have lt': "node m' a' < int (length tr)" by simp
  show "(Suc m < m' \<and> a' = i div 2 ^ m' \<and> complete (length xs) m' a') \<or> slot_ok f ?tr xs m' a'"
  proof (cases "node m' a' = ?p")
    case True
    then have eq: "m' = Suc m" "a' = i div 2 ^ Suc m" using node_inj by blast+
    have "nat ?p < length tr" using lt p0 by linarith
    then have "?tr ! nat ?p = Some (node_val f xs (Suc m) (i div 2 ^ Suc m))"
      by (rule nth_list_update_eq)
    then have "slot_ok f ?tr xs m' a'" unfolding slot_ok_def eq using co by (simp only: if_True)
    then show ?thesis ..
  next
    case False
    then have ne: "nat (node m' a') \<noteq> nat ?p"
      using node_pos [of m' a'] node_pos [of "Suc m" "i div 2 ^ Suc m"] by simp
    from cl lt' have "(m < m' \<and> a' = i div 2 ^ m' \<and> complete (length xs) m' a') \<or> slot_ok f tr xs m' a'"
      unfolding climbing_def by blast
    then show ?thesis
    proof
      assume a: "m < m' \<and> a' = i div 2 ^ m' \<and> complete (length xs) m' a'"
      with False have "m' \<noteq> Suc m" by auto
      with a show ?thesis by auto
    next
      assume "slot_ok f tr xs m' a'"
      then have "slot_ok f ?tr xs m' a'" using ne by (simp add: slot_ok_def nth_list_update)
      then show ?thesis ..
    qed
  qed
qed

lemma climbing_read:
  assumes cl: "climbing f tr xs i m" and lt: "node m a < int (length tr)"
  shows "tr ! nat (node m a) = (if complete (length xs) m a then Some (node_val f xs m a) else None)"
  using cl lt unfolding climbing_def slot_ok_def by blast

subsection \<open>List indexing inside the buffer\<close>

lemma list_get_nat: "0 \<le> j \<Longrightarrow> j < int (length xs) \<Longrightarrow> list_get xs j = Inr (xs ! nat j)"
  by (simp add: list_get_def py_index_def)

lemma list_set_nat: "0 \<le> j \<Longrightarrow> j < int (length xs) \<Longrightarrow> list_set xs j v = Inr (xs[nat j := v])"
  by (simp add: list_set_def py_index_def)

lemma list_get_node: "node m a < int (length xs) \<Longrightarrow> list_get xs (node m a) = Inr (xs ! nat (node m a))"
  using node_pos [of m a] by (simp add: list_get_nat)

lemma list_set_node:
  "node m a < int (length xs) \<Longrightarrow> list_set xs (node m a) v = Inr (xs[nat (node m a) := v])"
  using node_pos [of m a] by (simp add: list_set_nat)

lemma node_mono: "a \<le> b \<Longrightarrow> node m a \<le> node m b"
  using node_less [of m b a] by (simp add: not_less [symmetric])

subsection \<open>One iteration of the climbing loops\<close>

lemma init_climb_odd:
  assumes "odd a"
    and "list_get tr (node m (2 * (a div 2))) = Inr (Some x)"
    and "list_get tr (node m a) = Inr (Some y)"
    and "list_set tr (node (Suc m) (a div 2)) (Some (f x y)) = Inr tr'"
  shows "init_climb f tr (node m a) (2 ^ m) = init_climb f tr' (node (Suc m) (a div 2)) (2 ^ Suc m)"
proof -
  have t: "node m a AND 2 ^ Suc m \<noteq> 0" unfolding node_test by (rule assms(1))
  show ?thesis
    by (subst init_climb.simps)
      (simp only: shift_k t node_left node_parent assms call_def Let_def if_True
        sum.case option.case simp_thms)
qed

lemma init_climb_even:
  assumes "even a"
  shows "init_climb f tr (node m a) (2 ^ m) = Some (Inr tr)"
proof -
  have t: "\<not> node m a AND 2 ^ Suc m \<noteq> 0" unfolding node_test using assms(1) by simp
  show ?thesis
    by (subst init_climb.simps) (simp only: shift_k t if_False simp_thms)
qed

lemma set_climb_step:
  assumes "node m (2 * (a div 2) + 1) < int (length tr)"
    and "list_get tr (node m (2 * (a div 2))) = Inr (Some x)"
    and "list_get tr (node m (2 * (a div 2) + 1)) = Inr (Some y)"
    and "list_set tr (node (Suc m) (a div 2)) (Some (f x y)) = Inr tr'"
  shows "set_climb f tr (node m a) (2 ^ m) = set_climb f tr' (node (Suc m) (a div 2)) (2 ^ Suc m)"
  by (subst set_climb.simps)
    (simp only: shift_k node_left node_right node_parent assms call_def Let_def if_True
      sum.case option.case)

lemma set_climb_none:
  assumes "node m (2 * (a div 2) + 1) < int (length tr)"
    and "list_get tr (node m (2 * (a div 2))) = Inr x"
    and "list_get tr (node m (2 * (a div 2) + 1)) = Inr y"
    and "x = None \<or> y = None"
  shows "set_climb f tr (node m a) (2 ^ m) = Some (Inl (CombineOnNone, tr))"
proof -
  have "call f x y = Inl CombineOnNone"
    using assms(4) by (auto simp add: call_def split: option.splits)
  then show ?thesis
    by (subst set_climb.simps)
      (simp only: shift_k node_left node_right node_parent assms Let_def if_True sum.case)
qed

lemma set_climb_exit:
  assumes "\<not> node m (2 * (a div 2) + 1) < int (length tr)"
  shows "set_climb f tr (node m a) (2 ^ m) = Some (Inr tr)"
  by (subst set_climb.simps) (simp only: shift_k node_right assms if_False)

subsection \<open>The constructor's climb\<close>

lemma odd_div2_less: "odd (a::nat) \<Longrightarrow> a div 2 < a"
  by (cases a) auto

lemma odd_decomp: "odd (a::nat) \<Longrightarrow> a = 2 * (a div 2) + 1"
  by presburger

lemma even_decomp: "even (a::nat) \<Longrightarrow> a = 2 * (a div 2)"
  by presburger

lemma complete_last_parent:
  assumes "odd a" and "(a + 1) * 2 ^ m = n"
  shows "complete n (Suc m) (a div 2)"
proof -
  from assms(1) obtain b where "a = 2 * b + 1" by (auto elim: oddE)
  with assms(2) show ?thesis by (simp add: complete_def algebra_simps)
qed

lemma incomplete_last_parent:
  assumes "even a" and "(a + 1) * 2 ^ m = n"
  shows "\<not> complete n (Suc m) (a div 2)"
proof -
  from assms(1) obtain b where "a = 2 * b" by (auto elim: evenE)
  with assms(2) show ?thesis by (auto simp add: complete_def algebra_simps)
qed

lemma children_read:
  assumes cl: "climbing f tr xs i m"
    and co: "complete (length xs) (Suc m) b"
    and len: "2 * length xs \<le> length tr"
  shows "list_get tr (node m (2 * b)) = Inr (Some (node_val f xs m (2 * b)))"
    and "list_get tr (node m (2 * b + 1)) = Inr (Some (node_val f xs m (2 * b + 1)))"
    and "list_set tr (node (Suc m) b) v = Inr (tr[nat (node (Suc m) b) := v])"
    and "node m (2 * b + 1) < int (length tr)"
proof -
  have c1: "complete (length xs) m (2 * b + 1)" using co by (simp only: complete_children)
  then have c0: "complete (length xs) m (2 * b)" by (simp add: complete_left)
  have l1: "node m (2 * b + 1) < int (length tr)"
    using complete_node_less [OF c1] len by linarith
  have l0: "node m (2 * b) < int (length tr)"
    using complete_node_less [OF c0] len by linarith
  have lp: "node (Suc m) b < int (length tr)"
    using complete_node_less [OF co] len by linarith
  show "list_get tr (node m (2 * b)) = Inr (Some (node_val f xs m (2 * b)))"
    using climbing_read [OF cl l0] c0 by (simp only: list_get_node [OF l0] if_True)
  show "list_get tr (node m (2 * b + 1)) = Inr (Some (node_val f xs m (2 * b + 1)))"
    using climbing_read [OF cl l1] c1 by (simp only: list_get_node [OF l1] if_True)
  show "list_set tr (node (Suc m) b) v = Inr (tr[nat (node (Suc m) b) := v])"
    by (rule list_set_node [OF lp])
  show "node m (2 * b + 1) < int (length tr)" by (rule l1)
qed

lemma init_climb_ok:
  assumes "climbing f tr xs i m"
    and "(i div 2 ^ m + 1) * 2 ^ m = length xs"
    and "2 * length xs \<le> length tr"
  shows "\<exists>tr'. init_climb f tr (node m (i div 2 ^ m)) (2 ^ m) = Some (Inr tr')
           \<and> slots_ok f tr' xs \<and> length tr' = length tr"
  using assms
proof (induction "i div 2 ^ m" arbitrary: m tr rule: less_induct)
  case less
  let ?a = "i div 2 ^ m"
  let ?b = "i div 2 ^ Suc m"
  have b: "?b = ?a div 2" by (rule div_pow_Suc)
  show ?case
  proof (cases "odd ?a")
    case True
    have a: "?a = 2 * ?b + 1" unfolding b using True by (rule odd_decomp)
    have co: "complete (length xs) (Suc m) ?b"
      unfolding b using True less.prems(2) by (rule complete_last_parent)
    let ?v = "node_val f xs (Suc m) ?b"
    let ?tr = "tr[nat (node (Suc m) ?b) := Some ?v]"
    note rd = children_read [OF less.prems(1) co less.prems(3)]
    have lp: "node (Suc m) ?b < int (length tr)"
      using complete_node_less [OF co] less.prems(3) by linarith
    have step: "init_climb f tr (node m ?a) (2 ^ m) = init_climb f ?tr (node (Suc m) ?b) (2 ^ Suc m)"
      unfolding b
    proof (rule init_climb_odd [OF True])
      show "list_get tr (node m (2 * (?a div 2))) = Inr (Some (node_val f xs m (2 * ?b)))"
        using rd(1) unfolding b .
      show "list_get tr (node m ?a) = Inr (Some (node_val f xs m (2 * ?b + 1)))"
        using rd(2) a by simp
      show "list_set tr (node (Suc m) (?a div 2))
              (Some (f (node_val f xs m (2 * ?b)) (node_val f xs m (2 * ?b + 1))))
            = Inr (tr[nat (node (Suc m) (?a div 2)) := Some (node_val f xs (Suc m) (?a div 2))])"
        using rd(3) unfolding b by simp
    qed
    have cl': "climbing f ?tr xs i (Suc m)" by (rule climbing_step [OF less.prems(1) lp co])
    have n': "(?b + 1) * 2 ^ Suc m = length xs"
      using less.prems(2) a by (simp add: algebra_simps)
    have "?b < ?a" unfolding b using True by (rule odd_div2_less)
    from less.hyps [OF this cl' n'] less.prems(3)
    show ?thesis unfolding step by simp
  next
    case False
    then have ev: "even ?a" by simp
    have "\<not> complete (length xs) (Suc m) ?b"
      unfolding b using ev less.prems(2) by (rule incomplete_last_parent)
    with less.prems(1) have "slots_ok f tr xs" by (rule climbing_finish)
    then show ?thesis by (simp only: init_climb_even [OF ev]) simp
  qed
qed

lemma leaf_index: "push_bit 1 (i::int) OR 1 = 2 * i + 1"
  using or_exp_int [of "2 * i" 0] by (simp add: push_bit_eq_mult bit_0 mult.commute)

lemma leaf_node: "push_bit 1 (int i) OR 1 = node 0 i"
  by (simp only: leaf_index) (simp add: node_def)

lemma node_val_append:
  "complete (length xs) m a \<Longrightarrow> node_val f (xs @ ys) m a = node_val f xs m a"
proof (induction m arbitrary: a)
  case 0
  then show ?case by (simp add: complete_def nth_append)
next
  case (Suc m)
  from Suc.prems have c1: "complete (length xs) m (2 * a + 1)" by (simp only: complete_children)
  then have c0: "complete (length xs) m (2 * a)" by (simp add: complete_left)
  show ?case by (simp only: node_val.simps Suc.IH [OF c0] Suc.IH [OF c1])
qed

lemma node_val_update:
  "i div 2 ^ m \<noteq> a \<Longrightarrow> node_val f (xs[i := v]) m a = node_val f xs m a"
proof (induction m arbitrary: a)
  case 0
  then show ?case by simp
next
  case (Suc m)
  have "i div 2 ^ m div 2 \<noteq> a" using Suc.prems unfolding div_pow_Suc .
  then have ne: "i div 2 ^ m \<noteq> 2 * a" "i div 2 ^ m \<noteq> 2 * a + 1" by auto
  have "node_val f (xs[i := v]) m (2 * a) = node_val f xs m (2 * a)"
    by (rule Suc.IH [OF ne(1)])
  moreover have "node_val f (xs[i := v]) m (2 * a + 1) = node_val f xs m (2 * a + 1)"
    by (rule Suc.IH [OF ne(2)])
  ultimately show ?case by (simp only: node_val.simps)
qed

lemma last_cover: "(a + 1) * 2 ^ m = Suc n \<Longrightarrow> n div 2 ^ m = a"
proof -
  assume h: "(a + 1) * 2 ^ m = Suc n"
  have "0 < (2::nat) ^ m" by simp
  then obtain k where k: "(2::nat) ^ m = Suc k" by (cases "(2::nat) ^ m") auto
  from h k have "n = a * 2 ^ m + k" by (simp add: algebra_simps)
  moreover have "k < 2 ^ m" using k by simp
  ultimately show ?thesis by simp
qed

lemma leaf_append_climbing:
  assumes ok: "slots_ok f tr xs" and len: "2 * length xs + 1 < length tr"
  shows "climbing f (tr[2 * length xs + 1 := Some v]) (xs @ [v]) (length xs) 0"
  unfolding climbing_def
proof (intro conjI allI impI)
  let ?n = "length xs"
  let ?tr = "tr[2 * ?n + 1 := Some v]"
  show "?tr \<noteq> [] \<Longrightarrow> ?tr ! 0 = None" using ok by (simp add: slots_ok_def)
  fix m' a' assume "node m' a' < int (length ?tr)"
  then have lt: "node m' a' < int (length tr)" by simp
  have leaf: "nat (node 0 ?n) = 2 * ?n + 1" by (simp add: node_def nat_add_distrib nat_mult_distrib)
  show "(0 < m' \<and> a' = ?n div 2 ^ m' \<and> complete (length (xs @ [v])) m' a') \<or> slot_ok f ?tr (xs @ [v]) m' a'"
  proof (cases "node m' a' = node 0 ?n")
    case True
    then have eq: "m' = 0" "a' = ?n" using node_inj by blast+
    have "slot_ok f ?tr (xs @ [v]) 0 ?n"
      unfolding slot_ok_def leaf using len by (simp add: complete_def)
    then show ?thesis unfolding eq ..
  next
    case False
    then have ne: "nat (node m' a') \<noteq> 2 * ?n + 1"
      using node_pos [of m' a'] node_pos [of 0 ?n] unfolding leaf [symmetric] by simp
    from ok lt have old: "slot_ok f tr xs m' a'" unfolding slots_ok_def by blast
    have same: "?tr ! nat (node m' a') = tr ! nat (node m' a')"
      using ne by (simp add: nth_list_update)
    show ?thesis
    proof (cases "complete ?n m' a'")
      case True
      then have "complete (length (xs @ [v])) m' a'" by (simp add: complete_def)
      then have "slot_ok f ?tr (xs @ [v]) m' a'"
        using old True unfolding slot_ok_def same by (simp add: node_val_append)
      then show ?thesis ..
    next
      case nc: False
      show ?thesis
      proof (cases "complete (Suc ?n) m' a'")
        case True
        with nc have e: "(a' + 1) * 2 ^ m' = Suc ?n" by (simp add: complete_def)
        then have a': "?n div 2 ^ m' = a'" by (rule last_cover)
        have "m' \<noteq> 0"
        proof
          assume "m' = 0"
          with e have "a' = ?n" by simp
          with \<open>m' = 0\<close> False show False by simp
        qed
        with a' True show ?thesis by simp
      next
        case False
        then have "slot_ok f ?tr (xs @ [v]) m' a'"
          using old nc unfolding slot_ok_def same by simp
        then show ?thesis ..
      qed
    qed
  qed
qed

lemma leaf_set_climbing:
  assumes ok: "slots_ok f tr xs" and len: "length tr = 2 * length xs" and i: "i < length xs"
  shows "climbing f (tr[2 * i + 1 := Some v]) (xs[i := v]) i 0"
  unfolding climbing_def
proof (intro conjI allI impI)
  let ?tr = "tr[2 * i + 1 := Some v]"
  show "?tr \<noteq> [] \<Longrightarrow> ?tr ! 0 = None" using ok by (simp add: slots_ok_def)
  fix m' a' assume "node m' a' < int (length ?tr)"
  then have lt: "node m' a' < int (length tr)" by simp
  have leaf: "nat (node 0 i) = 2 * i + 1" by (simp add: node_def nat_add_distrib nat_mult_distrib)
  show "(0 < m' \<and> a' = i div 2 ^ m' \<and> complete (length (xs[i := v])) m' a') \<or> slot_ok f ?tr (xs[i := v]) m' a'"
  proof (cases "node m' a' = node 0 i")
    case True
    then have eq: "m' = 0" "a' = i" using node_inj by blast+
    have "slot_ok f ?tr (xs[i := v]) 0 i"
      unfolding slot_ok_def leaf using len i by (simp add: complete_def)
    then show ?thesis unfolding eq ..
  next
    case False
    then have ne: "nat (node m' a') \<noteq> 2 * i + 1"
      using node_pos [of m' a'] node_pos [of 0 i] unfolding leaf [symmetric] by simp
    from ok lt have old: "slot_ok f tr xs m' a'" unfolding slots_ok_def by blast
    have same: "?tr ! nat (node m' a') = tr ! nat (node m' a')"
      using ne by (simp add: nth_list_update)
    show ?thesis
    proof (cases "a' = i div 2 ^ m'")
      case True
      have "m' \<noteq> 0"
      proof
        assume "m' = 0"
        with True False show False by simp
      qed
      show ?thesis
      proof (cases "complete (length xs) m' a'")
        case c: True
        with True \<open>m' \<noteq> 0\<close> show ?thesis by simp
      next
        case c: False
        then have "slot_ok f ?tr (xs[i := v]) m' a'"
          using old unfolding slot_ok_def same by simp
        then show ?thesis ..
      qed
    next
      case False
      then have "node_val f (xs[i := v]) m' a' = node_val f xs m' a'"
        by (simp add: node_val_update)
      then have "slot_ok f ?tr (xs[i := v]) m' a'"
        using old unfolding slot_ok_def same by simp
      then show ?thesis ..
    qed
  qed
qed

subsection \<open>The climb of \<open>__setitem__\<close>\<close>

lemma set_climb_append:
  assumes "climbing f tr xs i m"
    and "(i div 2 ^ m + 1) * 2 ^ m = length xs"
    and "length tr = 2 * length xs"
  shows "\<exists>tr'. set_climb f tr (node m (i div 2 ^ m)) (2 ^ m) = Some (Inr tr')
           \<and> slots_ok f tr' xs \<and> length tr' = length tr"
  using assms
proof (induction "i div 2 ^ m" arbitrary: m tr rule: less_induct)
  case less
  let ?a = "i div 2 ^ m"
  let ?b = "i div 2 ^ Suc m"
  have b: "?b = ?a div 2" by (rule div_pow_Suc)
  have len: "2 * length xs \<le> length tr" using less.prems(3) by simp
  show ?case
  proof (cases "odd ?a")
    case True
    have a: "?a = 2 * ?b + 1" unfolding b using True by (rule odd_decomp)
    have co: "complete (length xs) (Suc m) ?b"
      unfolding b using True less.prems(2) by (rule complete_last_parent)
    let ?tr = "tr[nat (node (Suc m) ?b) := Some (node_val f xs (Suc m) ?b)]"
    note rd = children_read [OF less.prems(1) co len]
    have lp: "node (Suc m) ?b < int (length tr)"
      using complete_node_less [OF co] len by linarith
    have step: "set_climb f tr (node m ?a) (2 ^ m) = set_climb f ?tr (node (Suc m) ?b) (2 ^ Suc m)"
      unfolding b
    proof (rule set_climb_step)
      show "node m (2 * (?a div 2) + 1) < int (length tr)" using rd(4) unfolding b .
      show "list_get tr (node m (2 * (?a div 2))) = Inr (Some (node_val f xs m (2 * ?b)))"
        using rd(1) unfolding b .
      show "list_get tr (node m (2 * (?a div 2) + 1)) = Inr (Some (node_val f xs m (2 * ?b + 1)))"
        using rd(2) unfolding b .
      show "list_set tr (node (Suc m) (?a div 2))
              (Some (f (node_val f xs m (2 * ?b)) (node_val f xs m (2 * ?b + 1))))
            = Inr (tr[nat (node (Suc m) (?a div 2)) := Some (node_val f xs (Suc m) (?a div 2))])"
        using rd(3) unfolding b by simp
    qed
    have cl': "climbing f ?tr xs i (Suc m)" by (rule climbing_step [OF less.prems(1) lp co])
    have n': "(?b + 1) * 2 ^ Suc m = length xs"
      using less.prems(2) a by (simp add: algebra_simps)
    have l': "length ?tr = 2 * length xs" using less.prems(3) by simp
    have "?b < ?a" unfolding b using True by (rule odd_div2_less)
    from less.hyps [OF this cl' n' l']
    show ?thesis unfolding step by simp
  next
    case False
    then have ev: "even ?a" by simp
    have nc: "\<not> complete (length xs) (Suc m) ?b"
      unfolding b using ev less.prems(2) by (rule incomplete_last_parent)
    with less.prems(1) have ok: "slots_ok f tr xs" by (rule climbing_finish)
    have "\<not> node m (2 * (?a div 2) + 1) < int (length tr)"
    proof
      assume "node m (2 * (?a div 2) + 1) < int (length tr)"
      then have lt: "node m (2 * ?b + 1) < 2 * int (length xs)" using less.prems(3) unfolding b by simp
      have "complete (length xs) m ?a" using less.prems(2) by (simp add: complete_def)
      have "2 * int (length xs) = 2 * (int ?a + 1) * 2 ^ m"
        using arg_cong [OF less.prems(2), of int] by (simp add: algebra_simps)
      also have "\<dots> = 2 * (2 * int ?b + 1) * 2 ^ m" using even_decomp [OF ev] unfolding b by simp
      also have "\<dots> \<le> node m (2 * ?b + 1)" by (simp add: node_def algebra_simps)
      finally show False using lt by simp
    qed
    then have "set_climb f tr (node m ?a) (2 ^ m) = Some (Inr tr)" by (rule set_climb_exit)
    with ok show ?thesis by simp
  qed
qed

lemma node_right_bound:
  assumes "node m (2 * b + 1) < int L"
  shows "L - 2 ^ Suc m < L - 2 ^ m"
proof -
  have "(2::int) ^ m * 2 \<le> 2 ^ m * (2 * int (2 * b + 1) + 1)"
    by (rule mult_left_mono) simp_all
  then have "(2::int) ^ Suc m \<le> node m (2 * b + 1)" by (simp add: node_def)
  with assms have "(2::int) ^ Suc m < int L" by linarith
  then have "int (2 ^ Suc m) < int L" by simp
  then have "2 ^ Suc m < L" by (simp only: of_nat_less_iff)
  moreover have "(2::nat) ^ m < 2 ^ Suc m" by simp
  ultimately show ?thesis by linarith
qed

lemma set_climb_pc:
  assumes "climbing f tr xs i m"
    and "length tr = 2 * length xs"
    and "set_climb f tr (node m (i div 2 ^ m)) (2 ^ m) = Some (Inr tr')"
  shows "slots_ok f tr' xs \<and> length tr' = length tr"
  using assms
proof (induction "length tr - 2 ^ m" arbitrary: m tr rule: less_induct)
  case less
  let ?a = "i div 2 ^ m"
  let ?b = "i div 2 ^ Suc m"
  have b: "?b = ?a div 2" by (rule div_pow_Suc)
  have len: "2 * length xs \<le> length tr" using less.prems(2) by simp
  show ?case
  proof (cases "node m (2 * ?b + 1) < int (length tr)")
    case inside: True
    have l1: "node m (2 * ?b + 1) < int (length tr)" by (rule inside)
    have "node m (2 * ?b) \<le> node m (2 * ?b + 1)" by (rule node_mono) simp
    with l1 have l0: "node m (2 * ?b) < int (length tr)" by linarith
    show ?thesis
    proof (cases "complete (length xs) m (2 * ?b + 1)")
      case True
      then have co: "complete (length xs) (Suc m) ?b" by (simp only: complete_children)
      let ?tr = "tr[nat (node (Suc m) ?b) := Some (node_val f xs (Suc m) ?b)]"
      note rd = children_read [OF less.prems(1) co len]
      have lp: "node (Suc m) ?b < int (length tr)"
        using complete_node_less [OF co] len by linarith
      have step: "set_climb f tr (node m ?a) (2 ^ m) = set_climb f ?tr (node (Suc m) ?b) (2 ^ Suc m)"
        unfolding b
      proof (rule set_climb_step)
        show "node m (2 * (?a div 2) + 1) < int (length tr)" using rd(4) unfolding b .
        show "list_get tr (node m (2 * (?a div 2))) = Inr (Some (node_val f xs m (2 * ?b)))"
          using rd(1) unfolding b .
        show "list_get tr (node m (2 * (?a div 2) + 1)) = Inr (Some (node_val f xs m (2 * ?b + 1)))"
          using rd(2) unfolding b .
        show "list_set tr (node (Suc m) (?a div 2))
                (Some (f (node_val f xs m (2 * ?b)) (node_val f xs m (2 * ?b + 1))))
              = Inr (tr[nat (node (Suc m) (?a div 2)) := Some (node_val f xs (Suc m) (?a div 2))])"
          using rd(3) unfolding b by simp
      qed
      have cl': "climbing f ?tr xs i (Suc m)" by (rule climbing_step [OF less.prems(1) lp co])
      have l': "length ?tr = 2 * length xs" using less.prems(2) by simp
      have res: "set_climb f ?tr (node (Suc m) ?b) (2 ^ Suc m) = Some (Inr tr')"
        using less.prems(3) unfolding step .
      have "length ?tr - 2 ^ Suc m < length tr - 2 ^ m"
        using node_right_bound [OF l1] by simp
      from less.hyps [OF this cl' l' res] show ?thesis by simp
    next
      case False
      have "tr ! nat (node m (2 * ?b + 1)) = None"
        using climbing_read [OF less.prems(1) l1] False by simp
      then have g1: "list_get tr (node m (2 * (?a div 2) + 1)) = Inr None"
        unfolding b [symmetric] by (simp only: list_get_node [OF l1])
      have g0: "list_get tr (node m (2 * (?a div 2))) = Inr (tr ! nat (node m (2 * ?b)))"
        unfolding b [symmetric] by (rule list_get_node [OF l0])
      have l1': "node m (2 * (?a div 2) + 1) < int (length tr)" using l1 unfolding b .
      have "set_climb f tr (node m ?a) (2 ^ m) = Some (Inl (CombineOnNone, tr))"
        by (rule set_climb_none [OF l1' g0 g1]) simp
      with less.prems(3) show ?thesis by simp
    qed
  next
    case False
    then have ex: "\<not> node m (2 * (?a div 2) + 1) < int (length tr)" unfolding b .
    have "set_climb f tr (node m ?a) (2 ^ m) = Some (Inr tr)" using ex by (rule set_climb_exit)
    with less.prems(3) have eq: "tr' = tr" by simp
    have "\<not> complete (length xs) m (2 * ?b + 1)"
    proof
      assume "complete (length xs) m (2 * ?b + 1)"
      from complete_node_less [OF this] False less.prems(2) show False by simp
    qed
    then have "\<not> complete (length xs) (Suc m) ?b" unfolding complete_children .
    with less.prems(1) have "slots_ok f tr xs" by (rule climbing_finish)
    with eq show ?thesis by simp
  qed
qed

text \<open>With a negative coordinate the loop test is always true: the loop cannot return.\<close>

lemma set_climb_negative_aux:
  assumes "set_climb f tr j k = Some y"
  shows "j < 0 \<longrightarrow> (\<exists>e tr'. y = Inl (e, tr'))"
proof (rule set_climb.raw_induct
    [where P = "\<lambda>f tr j k y. j < 0 \<longrightarrow> (\<exists>e tr'. y = Inl (e, tr'))", OF _ assms])
  fix climb :: "('a \<Rightarrow> 'a \<Rightarrow> 'a) \<Rightarrow> 'a option list \<Rightarrow> int \<Rightarrow> int
      \<Rightarrow> (error \<times> 'a option list + 'a option list) option"
    and f tr j k y
  assume IH: "\<And>f tr j k y. climb f tr j k = Some y \<Longrightarrow> j < 0 \<longrightarrow> (\<exists>e tr'. y = Inl (e, tr'))"
    and body: "(if j OR push_bit 1 k < int (length tr) then
        (let p = (j AND NOT k) OR push_bit 1 k in
         case list_get tr (j AND NOT (push_bit 1 k)) of
           Inl e \<Rightarrow> Some (Inl (e, tr))
         | Inr x \<Rightarrow>
        (case list_get tr (j OR push_bit 1 k) of
           Inl e \<Rightarrow> Some (Inl (e, tr))
         | Inr y \<Rightarrow>
        (case call f x y of
           Inl e \<Rightarrow> Some (Inl (e, tr))
         | Inr v \<Rightarrow>
        (case list_set tr p (Some v) of
           Inl e \<Rightarrow> Some (Inl (e, tr))
         | Inr tr' \<Rightarrow> climb f tr' p (push_bit 1 k)))))
      else Some (Inr tr)) = Some y"
  show "j < 0 \<longrightarrow> (\<exists>e tr'. y = Inl (e, tr'))"
  proof
    assume j: "j < 0"
    have c: "j OR push_bit 1 k < int (length tr)"
    proof -
      have "j OR push_bit 1 k < 0" using j by (simp only: or_negative_int_iff) simp
      then show ?thesis by linarith
    qed
    have "0 \<le> k \<or> k < 0" by linarith
    then have p: "(j AND NOT k) OR push_bit 1 k < 0"
      unfolding or_negative_int_iff and_negative_int_iff not_negative_int_iff
        push_bit_negative_int_iff using j by blast
    from body c p IH show "\<exists>e tr'. y = Inl (e, tr')"
      by (auto simp add: Let_def split: sum.splits)
  qed
qed

lemma set_climb_negative:
  "j < 0 \<Longrightarrow> set_climb f tr j k \<noteq> Some (Inr tr')"
  using set_climb_negative_aux [of f tr j k "Inr tr'"] by auto

subsection \<open>The operations keep the invariant\<close>

lemma nat_node0: "nat (node 0 i) = 2 * i + 1"
  by (simp add: node_def nat_add_distrib nat_mult_distrib)

lemma init_loop_ok:
  assumes "slots_ok f tr xs" and "2 * (length xs + length vs) \<le> length tr"
  shows "\<exists>tr'. init_loop f tr (int (length xs)) vs = Some (Inr tr')
           \<and> slots_ok f tr' (xs @ vs) \<and> length tr' = length tr"
  using assms
proof (induction vs arbitrary: tr xs)
  case Nil
  then show ?case by simp
next
  case (Cons v vs)
  let ?n = "length xs"
  let ?tr1 = "tr[2 * ?n + 1 := Some v]"
  have lt: "2 * ?n + 1 < length tr" using Cons.prems(2) by simp
  then have "node 0 ?n < int (length tr)" by (simp add: node_def)
  then have w: "list_set tr (push_bit 1 (int ?n) OR 1) (Some v) = Inr ?tr1"
    unfolding leaf_node by (simp only: list_set_node nat_node0)
  have cl: "climbing f ?tr1 (xs @ [v]) ?n 0" using Cons.prems(1) lt by (rule leaf_append_climbing)
  have "\<exists>tr'. init_climb f ?tr1 (node 0 (?n div 2 ^ 0)) (2 ^ 0) = Some (Inr tr')
           \<and> slots_ok f tr' (xs @ [v]) \<and> length tr' = length ?tr1"
    using cl by (rule init_climb_ok) (use Cons.prems(2) in simp_all)
  then obtain tr2 where c: "init_climb f ?tr1 (push_bit 1 (int ?n) OR 1) 1 = Some (Inr tr2)"
    and ok2: "slots_ok f tr2 (xs @ [v])" and l2: "length tr2 = length tr"
    unfolding leaf_node by auto
  have "2 * (length (xs @ [v]) + length vs) \<le> length tr2" using Cons.prems(2) l2 by simp
  from Cons.IH [OF ok2 this] obtain tr' where
    r: "init_loop f tr2 (int (length (xs @ [v]))) vs = Some (Inr tr')"
    and ok': "slots_ok f tr' ((xs @ [v]) @ vs)" and l': "length tr' = length tr2" by blast
  have i: "int ?n + 1 = int (length (xs @ [v]))" by simp
  have "init_loop f tr (int ?n) (v # vs) = Some (Inr tr')"
    by (simp only: init_loop.simps Let_def w c sum.case option.case i r)
  with ok' l' l2 show ?case by simp
qed

lemma slots_ok_empty: "slots_ok f (replicate k None) []"
  unfolding slots_ok_def
proof (intro conjI allI impI)
  show "replicate k None \<noteq> [] \<Longrightarrow> replicate k None ! 0 = None" by simp
  fix m a assume "node m a < int (length (replicate k (None::'a option)))"
  then have "nat (node m a) < k" using node_pos [of m a] by simp
  then show "slot_ok f (replicate k None) [] m a" by (simp add: slot_ok_def complete_def)
qed

lemma construct_ok:
  "\<exists>tr. construct f vs = Some (Inr \<lparr>func = f, tree = tr\<rparr>) \<and> invar f tr vs"
proof -
  have "\<exists>tr'. init_loop f (replicate (push_bit 1 (length vs)) None) (int (length ([]::'a list))) vs
          = Some (Inr tr') \<and> slots_ok f tr' ([] @ vs)
          \<and> length tr' = length (replicate (push_bit 1 (length vs)) (None::'a option))"
    by (rule init_loop_ok [OF slots_ok_empty]) (simp add: push_bit_eq_mult)
  then obtain tr' where "init_loop f (replicate (push_bit 1 (length vs)) None) 0 vs = Some (Inr tr')"
    and "slots_ok f tr' vs" and "length tr' = 2 * length vs"
    by (auto simp add: push_bit_eq_mult)
  then show ?thesis by (simp add: construct_def invar_def)
qed

lemma slots_ok_grow:
  assumes "invar f tr xs"
  shows "slots_ok f (tr @ [None, None]) xs"
  unfolding slots_ok_def
proof (intro conjI allI impI)
  from assms have len: "length tr = 2 * length xs" and ok: "slots_ok f tr xs"
    by (simp_all add: invar_def)
  show "(tr @ [None, None]) ! 0 = None" using ok by (cases tr) (simp_all add: slots_ok_def)
  fix m a assume "node m a < int (length (tr @ [None, None]))"
  then have lt: "nat (node m a) < length tr + 2" by simp
  show "slot_ok f (tr @ [None, None]) xs m a"
  proof (cases "node m a < int (length tr)")
    case True
    with ok have "slot_ok f tr xs m a" by (simp add: slots_ok_def)
    moreover from True have "nat (node m a) < length tr" using node_pos [of m a] by linarith
    ultimately show ?thesis by (simp add: slot_ok_def nth_append)
  next
    case False
    then have ge: "length tr \<le> nat (node m a)" by linarith
    have "\<not> complete (length xs) m a"
    proof
      assume "complete (length xs) m a"
      from complete_node_less [OF this] False len show False by simp
    qed
    moreover have "(tr @ [None, None]) ! nat (node m a) = None"
      using ge lt by (auto simp add: nth_append nth_Cons split: nat.splits)
    ultimately show ?thesis by (simp add: slot_ok_def)
  qed
qed

lemma append_ok:
  assumes "invar (func t) (tree t) xs"
  shows "\<exists>tr'. append t v = Some (Inr (t\<lparr>tree := tr'\<rparr>)) \<and> invar (func t) tr' (xs @ [v])"
proof -
  let ?n = "length xs"
  let ?f = "func t"
  let ?tr0 = "tree t @ [None, None]"
  let ?tr1 = "?tr0[2 * ?n + 1 := Some v]"
  from assms have len: "length (tree t) = 2 * ?n" by (simp add: invar_def)
  have ok0: "slots_ok ?f ?tr0 xs" using assms by (rule slots_ok_grow)
  have lt: "2 * ?n + 1 < length ?tr0" using len by simp
  then have "node 0 ?n < int (length ?tr0)" by (simp add: node_def)
  then have w: "list_set ?tr0 (push_bit 1 (int ?n) OR 1) (Some v) = Inr ?tr1"
    unfolding leaf_node by (simp only: list_set_node nat_node0)
  have cl: "climbing ?f ?tr1 (xs @ [v]) ?n 0" using ok0 lt by (rule leaf_append_climbing)
  have "\<exists>tr'. set_climb ?f ?tr1 (node 0 (?n div 2 ^ 0)) (2 ^ 0) = Some (Inr tr')
           \<and> slots_ok ?f tr' (xs @ [v]) \<and> length tr' = length ?tr1"
    using cl by (rule set_climb_append) (use len in simp_all)
  then obtain tr' where c: "set_climb ?f ?tr1 (push_bit 1 (int ?n) OR 1) 1 = Some (Inr tr')"
    and ok': "slots_ok ?f tr' (xs @ [v])" and l': "length tr' = length ?tr1"
    unfolding leaf_node by auto
  have i: "drop_bit 1 (int (length (tree t))) = int ?n" using len by (simp add: drop_bit_eq_div)
  have "setitem_tree ?f ?tr0 (int ?n) v = Some (Inr tr')"
    by (simp only: setitem_tree_def Let_def w c sum.case)
  then have "append t v = Some (Inr (t\<lparr>tree := tr'\<rparr>))"
    unfolding append_def Let_def i by (simp add: setitem_def with_tree_def)
  moreover have "invar ?f tr' (xs @ [v])" using ok' l' len by (simp add: invar_def)
  ultimately show ?thesis by blast
qed

lemma setitem_tree_ok:
  assumes inv: "invar f tr xs" and res: "setitem_tree f tr i v = Some (Inr tr')"
  shows "0 \<le> i \<and> i < int (length xs) \<and> invar f tr' (xs[nat i := v])"
proof -
  from inv have len: "length tr = 2 * length xs" and ok: "slots_ok f tr xs"
    by (simp_all add: invar_def)
  let ?j = "push_bit 1 i OR 1"
  from res obtain tr1 where w: "list_set tr ?j (Some v) = Inr tr1"
    and c: "set_climb f tr1 ?j 1 = Some (Inr tr')"
    by (auto simp add: setitem_tree_def Let_def split: sum.splits)
  have "\<not> ?j < 0" using c set_climb_negative [of ?j f tr1 1 tr'] by blast
  then have i0: "0 \<le> i" unfolding leaf_index by linarith
  from w have "py_index tr ?j \<noteq> None" by (auto simp add: list_set_def split: option.splits)
  then have "?j < int (length tr)" using i0 unfolding leaf_index
    by (auto simp add: py_index_def Let_def split: if_splits)
  then have i1: "i < int (length xs)" unfolding leaf_index using len by linarith
  define k where "k = nat i"
  have ik: "i = int k" and k: "k < length xs" using i0 i1 by (simp_all add: k_def)
  have lt: "node 0 k < int (length tr)" using k len by (simp add: node_def)
  have "list_set tr ?j (Some v) = Inr (tr[2 * k + 1 := Some v])"
    unfolding ik leaf_node by (simp only: list_set_node [OF lt] nat_node0)
  with w have tr1: "tr1 = tr[2 * k + 1 := Some v]" by simp
  have cl: "climbing f tr1 (xs[k := v]) k 0" unfolding tr1 using ok len k by (rule leaf_set_climbing)
  have l1: "length tr1 = 2 * length (xs[k := v])" using len tr1 by simp
  have "set_climb f tr1 (node 0 (k div 2 ^ 0)) (2 ^ 0) = Some (Inr tr')"
    using c unfolding ik leaf_node by simp
  from set_climb_pc [OF cl l1 this] have "invar f tr' (xs[k := v])"
    using l1 by (simp add: invar_def)
  with i0 i1 show ?thesis by (simp add: k_def)
qed

lemma setitem_ok:
  assumes "invar (func t) (tree t) xs" and "setitem t i v = Some (Inr t')"
  shows "0 \<le> i \<and> i < int (length xs) \<and> func t' = func t \<and> invar (func t) (tree t') (xs[nat i := v])"
proof -
  from assms(2) obtain tr' where r: "setitem_tree (func t) (tree t) i v = Some (Inr tr')"
    and t': "t' = t\<lparr>tree := tr'\<rparr>"
    by (auto simp add: setitem_def with_tree_def split: option.splits sum.splits)
  from setitem_tree_ok [OF assms(1) r] t' show ?thesis by simp
qed

lemma reachable_invar: "reachable t \<Longrightarrow> \<exists>xs. invar (func t) (tree t) xs"
proof (induction rule: reachable.induct)
  case (reach_construct f vs t)
  with construct_ok [of f vs] show ?case by auto
next
  case (reach_append t v t')
  then obtain xs where "invar (func t) (tree t) xs" by blast
  from append_ok [OF this, of v] reach_append.hyps(2) show ?case by auto
next
  case (reach_setitem t i v t')
  then obtain xs where "invar (func t) (tree t) xs" by blast
  from setitem_ok [OF this reach_setitem.hyps(2)] show ?case by auto
qed

subsection \<open>One iteration of the query loop\<close>

lemma node_sub: "odd b \<Longrightarrow> node m b - 2 ^ Suc m = node m (b - 1)"
proof -
  assume "odd b"
  then obtain c where "b = Suc c" by (cases b) auto
  then show ?thesis using node_add [of m c] by simp
qed

lemma acc_left: "(case l of None \<Rightarrow> Inr (Some x) | Some l' \<Rightarrow> map_sum id Some (call f l (Some x)))
    = Inr (oplus f l (Some x))"
  by (cases l) (simp_all add: call_def oplus_def)

lemma acc_right: "(case r of None \<Rightarrow> Inr (Some x) | Some r' \<Rightarrow> map_sum id Some (call f (Some x) r))
    = Inr (oplus f (Some x) r)"
  by (cases r) (simp_all add: call_def oplus_def)

lemma query_loop_exit:
  "\<not> a < b \<Longrightarrow> query_loop f tr (node m a) (node m b) l r (2 ^ m) = Some (Inr (l, r))"
  by (subst query_loop.simps) (simp only: node_less if_False)

lemma query_loop_step:
  assumes "a < b"
    and "odd a \<Longrightarrow> list_get tr (node m a) = Inr (Some x)"
    and "odd b \<Longrightarrow> list_get tr (node m (b - 1)) = Inr (Some y)"
  shows "query_loop f tr (node m a) (node m b) l r (2 ^ m) =
         query_loop f tr (node (Suc m) ((if odd a then a + 1 else a) div 2)) (node (Suc m) (b div 2))
           (if odd a then oplus f l (Some x) else l)
           (if odd b then oplus f (Some y) r else r) (2 ^ Suc m)"
proof -
  have lt: "node m a < node m b" using assms(1) by (simp only: node_less)
  have pb: "(b - 1) div 2 = b div 2" if "odd b" using that by presburger
  show ?thesis
  proof (cases "odd a")
    case oa: True
    show ?thesis
    proof (cases "odd b")
      case ob: True
      show ?thesis
        by (subst query_loop.simps)
          (simp only: lt oa ob if_True shift_k node_test assms(2) [OF oa] assms(3) [OF ob]
            node_sub [OF ob] node_add [symmetric] Let_def sum.case acc_left acc_right
            prod.case node_parent pb [OF ob] simp_thms)
    next
      case ob: False
      show ?thesis
        by (subst query_loop.simps)
          (simp only: lt oa ob if_True if_False shift_k node_test assms(2) [OF oa]
            node_add [symmetric] Let_def sum.case acc_left
            prod.case node_parent simp_thms)
    qed
  next
    case oa: False
    show ?thesis
    proof (cases "odd b")
      case ob: True
      show ?thesis
        by (subst query_loop.simps)
          (simp only: lt oa ob if_True if_False shift_k node_test assms(3) [OF ob]
            node_sub [OF ob] Let_def sum.case acc_right
            prod.case node_parent pb [OF ob] simp_thms)
    next
      case ob: False
      show ?thesis
        by (subst query_loop.simps)
          (simp only: lt oa ob if_True if_False shift_k node_test
            Let_def sum.case prod.case node_parent simp_thms)
    qed
  qed
qed

lemma invar_read:
  assumes "invar f tr xs" and "complete (length xs) m a"
  shows "list_get tr (node m a) = Inr (Some (node_val f xs m a))"
proof -
  from assms(1) have len: "length tr = 2 * length xs" and ok: "slots_ok f tr xs"
    by (simp_all add: invar_def)
  have lt: "node m a < int (length tr)" using complete_node_less [OF assms(2)] len by simp
  with ok have "slot_ok f tr xs m a" by (simp add: slots_ok_def)
  with assms(2) show ?thesis by (simp add: list_get_node [OF lt] slot_ok_def)
qed

lemma complete_le: "(a + 1) * 2 ^ m \<le> b * 2 ^ m \<Longrightarrow> b * 2 ^ m \<le> n \<Longrightarrow> complete n m a"
  by (simp add: complete_def)

lemma half_pow: "(b::nat) div 2 * 2 ^ Suc m \<le> b * 2 ^ m"
proof -
  have "b div 2 * 2 ^ Suc m = (b div 2 * 2) * 2 ^ m" by simp
  also have "\<dots> \<le> b * 2 ^ m" by (intro mult_le_mono1) simp
  finally show ?thesis .
qed

lemma query_loop_qabs:
  assumes "invar f tr xs" and "a \<le> b" and "b * 2 ^ m \<le> length xs"
  shows "query_loop f tr (node m a) (node m b) l r (2 ^ m) = Some (Inr (qabs f xs m a b l r))"
  using assms
proof (induction f xs m a b l r rule: qabs.induct)
  case (1 f xs m a b l r)
  show ?case
  proof (cases "a < b")
    case False
    then show ?thesis by (simp add: query_loop_exit qabs.simps [of _ _ m a b])
  next
    case True
    let ?a1 = "(if odd a then a + 1 else a) div 2"
    let ?l1 = "if odd a then oplus f l (Some (node_val f xs m a)) else l"
    let ?r1 = "if odd b then oplus f (Some (node_val f xs m (b - 1))) r else r"
    have ca: "complete (length xs) m a"
    proof (rule complete_le [OF _ "1.prems"(3)])
      show "(a + 1) * 2 ^ m \<le> b * 2 ^ m" using True by (intro mult_le_mono1) simp
    qed
    have cb: "complete (length xs) m (b - 1)"
      using True "1.prems"(3) by (simp add: complete_def)
    have le': "?a1 \<le> b div 2" using True by (intro div_le_mono) auto
    have n': "b div 2 * 2 ^ Suc m \<le> length xs" using half_pow [of b m] "1.prems"(3) by linarith
    note IH = "1.IH" [OF True "1.prems"(1) le' n']
    have "query_loop f tr (node m a) (node m b) l r (2 ^ m) =
        query_loop f tr (node (Suc m) ?a1) (node (Suc m) (b div 2)) ?l1 ?r1 (2 ^ Suc m)"
      by (rule query_loop_step [OF True])
        (rule invar_read [OF "1.prems"(1)], rule ca, rule invar_read [OF "1.prems"(1)], rule cb)
    also note IH
    also have "qabs f xs (Suc m) ?a1 (b div 2) ?l1 ?r1 = qabs f xs m a b l r"
      using True by (subst (2) qabs.simps) (simp only: if_True)
    finally show ?thesis .
  qed
qed

subsection \<open>What the accumulators hold\<close>

lemma oplus_None [simp]: "oplus f None y = y" "oplus f x None = x"
  by (simp_all add: oplus_def split: option.splits)

lemma oplus_Some: "oplus f (Some a) (Some b) = Some (f a b)"
  by (simp add: oplus_def)

lemma oplus_eq_None: "oplus f x y = None \<longleftrightarrow> x = None \<and> y = None"
  by (simp add: oplus_def split: option.splits)

lemma qabs_nonempty:
  "a < b \<or> l \<noteq> None \<or> r \<noteq> None \<Longrightarrow>
   fst (qabs f xs m a b l r) \<noteq> None \<or> snd (qabs f xs m a b l r) \<noteq> None"
proof (induction f xs m a b l r rule: qabs.induct)
  case (1 f xs m a b l r)
  show ?case
  proof (cases "a < b")
    case False
    with "1.prems" show ?thesis by (simp add: qabs.simps [of _ _ m a b])
  next
    case True
    let ?a1 = "(if odd a then a + 1 else a) div 2"
    let ?l1 = "if odd a then oplus f l (Some (node_val f xs m a)) else l"
    let ?r1 = "if odd b then oplus f (Some (node_val f xs m (b - 1))) r else r"
    have "?a1 < b div 2 \<or> ?l1 \<noteq> None \<or> ?r1 \<noteq> None"
    proof (cases "odd a \<or> odd b")
      case True
      then show ?thesis by (auto simp add: oplus_eq_None)
    next
      case False
      then have "even a" "even b" by simp_all
      with \<open>a < b\<close> have "a div 2 < b div 2" by presburger
      with False show ?thesis by simp
    qed
    from "1.IH" [OF True this] show ?thesis
      using True by (subst (1 2) qabs.simps) (simp only: if_True)
  qed
qed

lemma oplus_assoc: "assoc f \<Longrightarrow> oplus f (oplus f x y) z = oplus f x (oplus f y z)"
  by (cases x; cases y; cases z) (simp_all add: oplus_Some assoc_def)

lemma foldl_assoc: "assoc f \<Longrightarrow> foldl f (f a b) ys = f a (foldl f b ys)"
  by (induction ys arbitrary: b) (simp_all add: assoc_def)

lemma ofold_Nil [simp]: "ofold f [] = None"
  by (simp add: ofold_def)

lemma ofold_append: "assoc f \<Longrightarrow> ofold f (us @ vs) = oplus f (ofold f us) (ofold f vs)"
proof (cases us)
  case Nil
  then show ?thesis by simp
next
  case (Cons u us')
  assume a: "assoc f"
  show ?thesis
  proof (cases vs)
    case Nil
    then show ?thesis by simp
  next
    case (Cons v vs')
    have "foldl f (foldl f u us') (v # vs') = f (foldl f u us') (foldl f v vs')"
      using foldl_assoc [OF a] by simp
    then show ?thesis using \<open>us = u # us'\<close> Cons by (simp add: ofold_def oplus_Some)
  qed
qed

lemma seg_empty [simp]: "seg xs l l = []"
  by (simp add: seg_def)

lemma seg_split: "l \<le> k \<Longrightarrow> k \<le> r \<Longrightarrow> seg xs l k @ seg xs k r = seg xs l r"
proof -
  assume "l \<le> k" "k \<le> r"
  then obtain p q where "k = l + p" "r = k + q" by (auto simp add: le_iff_add)
  then show ?thesis unfolding seg_def by (simp add: take_add add.commute)
qed

lemma ofold_seg_split:
  "assoc f \<Longrightarrow> l \<le> k \<Longrightarrow> k \<le> r \<Longrightarrow>
   oplus f (ofold f (seg xs l k)) (ofold f (seg xs k r)) = ofold f (seg xs l r)"
  by (simp add: ofold_append [symmetric] seg_split)

lemma seg_single: "a < length xs \<Longrightarrow> seg xs a (Suc a) = [xs ! a]"
  by (simp add: seg_def take_Suc_conv_app_nth [of 0] hd_drop_conv_nth take_Suc)

lemma node_val_fold:
  assumes "assoc f" and "complete (length xs) m a"
  shows "Some (node_val f xs m a) = ofold f (seg xs (a * 2 ^ m) ((a + 1) * 2 ^ m))"
  using assms(2)
proof (induction m arbitrary: a)
  case 0
  then show ?case by (simp add: complete_def seg_single ofold_def)
next
  case (Suc m)
  from Suc.prems have c1: "complete (length xs) m (2 * a + 1)" by (simp only: complete_children)
  then have c0: "complete (length xs) m (2 * a)" by (simp add: complete_left)
  have "Some (node_val f xs (Suc m) a) =
      oplus f (Some (node_val f xs m (2 * a))) (Some (node_val f xs m (2 * a + 1)))"
    by (simp add: oplus_Some)
  also have "\<dots> = oplus f (ofold f (seg xs (2 * a * 2 ^ m) ((2 * a + 1) * 2 ^ m)))
      (ofold f (seg xs ((2 * a + 1) * 2 ^ m) ((2 * a + 1 + 1) * 2 ^ m)))"
    by (simp only: Suc.IH [OF c0] Suc.IH [OF c1])
  also have "\<dots> = ofold f (seg xs (2 * a * 2 ^ m) ((2 * a + 1 + 1) * 2 ^ m))"
    by (rule ofold_seg_split [OF assms(1)]) simp_all
  also have "\<dots> = ofold f (seg xs (a * 2 ^ Suc m) ((a + 1) * 2 ^ Suc m))"
    by (simp add: algebra_simps)
  finally show ?case .
qed

lemma qabs_fold:
  assumes "assoc f" and "a \<le> b" and "b * 2 ^ m \<le> length xs"
  shows "oplus f (fst (qabs f xs m a b l r)) (snd (qabs f xs m a b l r)) =
         oplus f (oplus f l (ofold f (seg xs (a * 2 ^ m) (b * 2 ^ m)))) r"
  using assms
proof (induction f xs m a b l r rule: qabs.induct)
  case (1 f xs m a b l r)
  note as = "1.prems"(1)
  show ?case
  proof (cases "a < b")
    case False
    with "1.prems"(2) have "a = b" by simp
    then show ?thesis by (simp add: qabs.simps [of _ _ m b b])
  next
    case True
    define a1 where "a1 = (if odd a then a + 1 else a)"
    define b1 where "b1 = (if odd b then b - 1 else b)"
    let ?l1 = "if odd a then oplus f l (Some (node_val f xs m a)) else l"
    let ?r1 = "if odd b then oplus f (Some (node_val f xs m (b - 1))) r else r"
    let ?S = "\<lambda>x y. ofold f (seg xs (x * 2 ^ m) (y * 2 ^ m))"
    have ord: "a \<le> a1" "a1 \<le> b1" "b1 \<le> b" "even a1" "even b1"
      using True unfolding a1_def b1_def by presburger+
    have ca: "complete (length xs) m a"
    proof (rule complete_le [OF _ "1.prems"(3)])
      show "(a + 1) * 2 ^ m \<le> b * 2 ^ m" using True by (intro mult_le_mono1) simp
    qed
    have cb: "complete (length xs) m (b - 1)"
      using True "1.prems"(3) by (simp add: complete_def)
    have l1: "?l1 = oplus f l (?S a a1)"
      using node_val_fold [OF as ca] by (simp add: a1_def)
    have r1: "?r1 = oplus f (?S b1 b) r"
      using node_val_fold [OF as cb] True by (simp add: b1_def)
    have le': "a1 div 2 \<le> b div 2" using ord by (intro div_le_mono) auto
    have n': "b div 2 * 2 ^ Suc m \<le> length xs" using half_pow [of b m] "1.prems"(3) by linarith
    have a1': "a1 div 2 * 2 ^ Suc m = a1 * 2 ^ m" using ord(4) by (auto elim: evenE)
    have b1': "b div 2 * 2 ^ Suc m = b1 * 2 ^ m" unfolding b1_def by (auto elim: evenE oddE)
    have mono: "x * 2 ^ m \<le> y * 2 ^ m" if "x \<le> y" for x y :: nat
      using that by (rule mult_le_mono1)
    have "oplus f (fst (qabs f xs m a b l r)) (snd (qabs f xs m a b l r)) =
        oplus f (fst (qabs f xs (Suc m) (a1 div 2) (b div 2) ?l1 ?r1))
          (snd (qabs f xs (Suc m) (a1 div 2) (b div 2) ?l1 ?r1))"
      using True unfolding a1_def by (subst (1 2) qabs.simps) (simp only: if_True)
    also have "\<dots> = oplus f (oplus f ?l1 (?S a1 b1)) ?r1"
      using "1.IH" [OF True as le' [unfolded a1_def] n'] unfolding a1_def [symmetric] a1' b1' .
    also have "\<dots> = oplus f (oplus f (oplus f l (?S a a1)) (?S a1 b1)) (oplus f (?S b1 b) r)"
      unfolding l1 r1 ..
    also have "\<dots> = oplus f (oplus f l (oplus f (oplus f (?S a a1) (?S a1 b1)) (?S b1 b))) r"
      by (simp only: oplus_assoc [OF as])
    also have "oplus f (?S a a1) (?S a1 b1) = ?S a b1"
      by (rule ofold_seg_split [OF as]) (rule mono, rule ord)+
    also have "oplus f (?S a b1) (?S b1 b) = ?S a b"
      by (rule ofold_seg_split [OF as]) (rule mono, use ord in simp, rule mono, rule ord)
    finally show ?thesis .
  qed
qed

subsection \<open>Reading the elements\<close>

lemma len_invar: "invar f (tree t) xs \<Longrightarrow> len t = int (length xs)"
  by (simp add: invar_def len_def drop_bit_eq_div)

lemma complete_leaf: "i < n \<Longrightarrow> complete n 0 i"
  by (simp add: complete_def)

lemma getitem_invar:
  assumes "invar f (tree t) xs" and "i < length xs"
  shows "getitem t (int i) = Inr (Some (xs ! i))"
  unfolding getitem_def leaf_node
  using invar_read [OF assms(1) complete_leaf [OF assms(2)]] by simp



lemma getitem_outside:
  assumes "length (tree t) = 2 * n"
  shows "getitem t i = Inl IndexError \<longleftrightarrow> i < - int n \<or> int n \<le> i"
  unfolding getitem_def leaf_index
  using assms by (auto simp add: list_get_def py_index_def Let_def)

lemma getitem_error:
  "getitem t i = Inl e \<Longrightarrow> e = IndexError"
  by (auto simp add: getitem_def list_get_def split: option.splits)

lemma setitem_outside:
  assumes "length (tree t) = 2 * n" and "i < - int n \<or> int n \<le> i"
  shows "setitem t i v = Some (Inl (IndexError, t))"
proof -
  have "py_index (tree t) (2 * i + 1) = None"
    using assms by (auto simp add: py_index_def Let_def)
  then have "list_set (tree t) (push_bit 1 i OR 1) (Some v) = Inl IndexError"
    unfolding leaf_index by (simp add: list_set_def)
  then have "setitem_tree (func t) (tree t) i v = Some (Inl (IndexError, tree t))"
    by (simp only: setitem_tree_def Let_def sum.case)
  then show ?thesis
    by (simp add: setitem_def with_tree_def)
qed

subsection \<open>The result of \<open>query\<close>\<close>

lemma query_invalid:
  "\<not> (0 \<le> i \<and> i < j \<and> j \<le> len t) \<Longrightarrow> query t i j = Some (Inl AssertionError)"
  by (auto simp add: query_def)

lemma query_loop_invar:
  assumes "invar f tr xs" and "i < j" and "j \<le> length xs"
  shows "query_loop f tr (push_bit 1 (int i) OR 1) (push_bit 1 (int j) OR 1) None None 1
         = Some (Inr (qabs f xs 0 i j None None))"
  unfolding leaf_node
  using query_loop_qabs [OF assms(1), of i j 0 None None] assms(2,3) by simp

lemma query_invar:
  assumes "invar (func t) (tree t) xs" and "i < j" and "j \<le> length xs"
  shows "query t (int i) (int j) =
         Some (Inr (oplus (func t) (fst (qabs (func t) xs 0 i j None None))
                                   (snd (qabs (func t) xs 0 i j None None))))"
proof -
  obtain l r where q: "qabs (func t) xs 0 i j None None = (l, r)" by (cases "qabs (func t) xs 0 i j None None")
  have ne: "l \<noteq> None \<or> r \<noteq> None"
    using qabs_nonempty [of i j None None "func t" xs 0] assms(2) q by simp
  have v: "0 \<le> int i \<and> int i < len t" "0 < int j \<and> int j \<le> len t" "int i < int j"
    using assms by (simp_all add: len_invar [OF assms(1)])
  have "query t (int i) (int j) =
      (if l = None then Some (Inr r) else if r = None then Some (Inr l)
       else Some (map_sum id Some (call (func t) l r)))"
    unfolding query_def using v ne
    by (simp only: query_loop_invar [OF assms] q simp_thms if_True if_False option.case sum.case prod.case)
  also have "\<dots> = Some (Inr (oplus (func t) l r))"
    by (cases l; cases r) (simp_all add: call_def oplus_Some)
  finally show ?thesis by (simp add: q)
qed


lemma ofold_Some: "vs \<noteq> [] \<Longrightarrow> ofold f vs = Some (foldl f (hd vs) (tl vs))"
  by (cases vs) (simp_all add: ofold_def)

lemma length_seg: "r \<le> length xs \<Longrightarrow> length (seg xs l r) = r - l"
  by (simp add: seg_def)

lemma nth_seg: "r \<le> length xs \<Longrightarrow> d < r - l \<Longrightarrow> seg xs l r ! d = xs ! (l + d)"
  by (simp add: seg_def)

lemma query_fold:
  assumes "invar (func t) (tree t) xs" and "assoc (func t)" and "i < j" and "j \<le> length xs"
  shows "query t (int i) (int j) =
         Some (Inr (Some (foldl (func t) (hd (seg xs i j)) (tl (seg xs i j)))))"
proof -
  have "seg xs i j \<noteq> []" using length_seg [OF assms(4), of i] assms(3) by auto
  then have "ofold (func t) (seg xs i j) = Some (foldl (func t) (hd (seg xs i j)) (tl (seg xs i j)))"
    by (rule ofold_Some)
  moreover have "oplus (func t) (fst (qabs (func t) xs 0 i j None None))
        (snd (qabs (func t) xs 0 i j None None)) = ofold (func t) (seg xs i j)"
    using qabs_fold [OF assms(2), of i j 0 xs None None] assms(3,4) by simp
  ultimately show ?thesis unfolding query_invar [OF assms(1,3,4)] by simp
qed

subsection \<open>Calls outside the buffer write nothing\<close>

text \<open>
  With \<open>n\<close> elements, \<^verbatim>\<open>get(i)\<close> and \<^verbatim>\<open>set(i, v)\<close> with \<open>i < -n\<close> or \<open>i \<ge> n\<close> raise
  \<^verbatim>\<open>IndexError\<close> at their first access to the list, and \<^verbatim>\<open>query(i, j)\<close> outside
  \<open>0 \<le> i < j \<le> n\<close> raises at its assertions: the structure that \<^verbatim>\<open>set\<close> leaves is the
  one it was given.
\<close>

lemma failed_call_leaves_buffer:
  assumes "invar (func t) (tree t) xs"
  shows "(i < - len t \<or> len t \<le> i \<longrightarrow>
            getitem t i = Inl IndexError \<and> setitem t i v = Some (Inl (IndexError, t)))
     \<and> (\<not> (0 \<le> i \<and> i < j \<and> j \<le> len t) \<longrightarrow> query t i j = Some (Inl AssertionError))"
proof -
  have n: "len t = int (length xs)" using assms by (rule len_invar)
  have l: "length (tree t) = 2 * length xs" using assms by (simp add: invar_def)
  show ?thesis
  proof (intro conjI impI)
    assume o: "i < - len t \<or> len t \<le> i"
    show "getitem t i = Inl IndexError" using o getitem_outside [OF l, of i] unfolding n by simp
    show "setitem t i v = Some (Inl (IndexError, t))" using l o unfolding n by (rule setitem_outside)
  next
    assume "\<not> (0 \<le> i \<and> i < j \<and> j \<le> len t)"
    then show "query t i j = Some (Inl AssertionError)" by (rule query_invalid)
  qed
qed

subsection \<open>The buffer is determined by the elements\<close>

lemma invar_unique:
  assumes "invar f tr xs" and "invar f tr' xs"
  shows "tr = tr'"
proof (rule nth_equalityI)
  from assms have len: "length tr = 2 * length xs" "length tr' = 2 * length xs"
    and ok: "slots_ok f tr xs" "slots_ok f tr' xs" by (simp_all add: invar_def)
  show "length tr = length tr'" using len by simp
  fix c assume c: "c < length tr"
  show "tr ! c = tr' ! c"
  proof (cases "c = 0")
    case True
    with c ok len show ?thesis by (auto simp add: slots_ok_def)
  next
    case False
    then have "0 < int c" by simp
    then obtain m a where n: "int c = node m a" using node_exists by blast
    then have "node m a < int (length tr)" "node m a < int (length tr')" using c len by simp_all
    with ok have "slot_ok f tr xs m a" "slot_ok f tr' xs m a" by (simp_all add: slots_ok_def)
    then show ?thesis unfolding slot_ok_def n [symmetric] by simp
  qed
qed

subsection \<open>\<open>__setitem__\<close> with a negative index\<close>








subsection \<open>From the buffer to the structure\<close>

lemma append_tree:
  "setitem_tree (func t) (tree t @ [None, None]) (drop_bit 1 (int (length (tree t)))) v = Some (Inr tr')
   \<Longrightarrow> append t v = Some (Inr (t\<lparr>tree := tr'\<rparr>))"
  by (simp add: append_def setitem_def with_tree_def Let_def)

lemma setitem_tree_raise:
  "setitem_tree (func t) (tree t) i v = Some (Inl (e, tr'))
   \<Longrightarrow> setitem t i v = Some (Inl (e, t\<lparr>tree := tr'\<rparr>))"
  by (simp add: setitem_def with_tree_def)

lemma setitem_tree_return:
  "setitem_tree (func t) (tree t) i v = Some (Inr tr')
   \<Longrightarrow> setitem t i v = Some (Inr (t\<lparr>tree := tr'\<rparr>))"
  by (simp add: setitem_def with_tree_def)

subsection \<open>The worked examples are reachable\<close>

lemma init_ex6:
  "init_loop (+) (replicate (push_bit 1 (length [1, 2, 3, 4, 5, 6::int])) None) 0 [1, 2, 3, 4, 5, 6]
   = Some (Inr (tree ex6))"
  unfolding ex6_def by code_simp

lemma construct_ex6: "construct (+) [1, 2, 3, 4, 5, 6] = Some (Inr ex6)"
  unfolding construct_def init_ex6 by (simp add: ex6_def)

lemma setitem_tree_ex6:
  "setitem_tree (+) (tree ex6 @ [None, None]) (drop_bit 1 (int (length (tree ex6)))) 7
   = Some (Inr (tree ex7))"
  unfolding ex6_def ex7_def by code_simp

lemma append_ex6: "append ex6 7 = Some (Inr ex7)"
proof -
  have f: "func ex6 = (+)" by (simp add: ex6_def)
  have "append ex6 7 = Some (Inr (ex6\<lparr>tree := tree ex7\<rparr>))"
    by (rule append_tree) (simp only: f setitem_tree_ex6)
  moreover have "ex6\<lparr>tree := tree ex7\<rparr> = ex7" by (simp add: ex6_def ex7_def)
  ultimately show ?thesis by simp
qed

lemma setitem_tree_ex7:
  "setitem_tree (+) (tree ex7) 2 15 = Some (Inl (CombineOnNone, tree ex7_raised))"
  unfolding ex7_def ex7_raised_def by code_simp

lemma setitem_ex7: "setitem ex7 2 15 = Some (Inl (CombineOnNone, ex7_raised))"
proof -
  have f: "func ex7 = (+)" by (simp add: ex7_def)
  have "setitem ex7 2 15 = Some (Inl (CombineOnNone, ex7\<lparr>tree := tree ex7_raised\<rparr>))"
    by (rule setitem_tree_raise) (simp only: f setitem_tree_ex7)
  moreover have "ex7\<lparr>tree := tree ex7_raised\<rparr> = ex7_raised" by (simp add: ex7_def ex7_raised_def)
  ultimately show ?thesis by simp
qed

lemma init_exs:
  "init_loop (@) (replicate (push_bit 1 (length [''a'', ''b'', ''c'', ''d'', ''e''])) None) 0
     [''a'', ''b'', ''c'', ''d'', ''e''] = Some (Inr (tree exs))"
  unfolding exs_def by code_simp

lemma construct_exs: "construct (@) [''a'', ''b'', ''c'', ''d'', ''e''] = Some (Inr exs)"
  unfolding construct_def init_exs by (simp add: exs_def)

lemma reachable_ex6: "reachable ex6"
  using construct_ex6 by (rule reach_construct)


lemma reachable_exs: "reachable exs"
  using construct_exs by (rule reach_construct)

lemma assoc_plus: "assoc ((+) :: int \<Rightarrow> int \<Rightarrow> int)"
  by (simp add: assoc_def)

lemma assoc_append: "assoc ((@) :: 'a list \<Rightarrow> 'a list \<Rightarrow> 'a list)"
  by (simp add: assoc_def)

lemma init_ex2:
  "init_loop (+) (replicate (push_bit 1 (length [1, 2::int])) None) 0 [1, 2] = Some (Inr (tree ex2))"
  unfolding ex2_def by code_simp

lemma construct_ex2: "construct (+) [1, 2] = Some (Inr ex2)"
  unfolding construct_def init_ex2 by (simp add: ex2_def)

lemma reachable_ex2: "reachable ex2"
  using construct_ex2 by (rule reach_construct)

lemma setitem_tree_ex2:
  "setitem_tree (+) (tree ex2) (- 1) 9 = Some (Inl (IndexError, tree ex2_raised))"
  unfolding ex2_def ex2_raised_def by code_simp

lemma setitem_ex2: "setitem ex2 (- 1) 9 = Some (Inl (IndexError, ex2_raised))"
proof -
  have f: "func ex2 = (+)" by (simp add: ex2_def)
  have "setitem ex2 (- 1) 9 = Some (Inl (IndexError, ex2\<lparr>tree := tree ex2_raised\<rparr>))"
    by (rule setitem_tree_raise) (simp only: f setitem_tree_ex2)
  moreover have "ex2\<lparr>tree := tree ex2_raised\<rparr> = ex2_raised" by (simp add: ex2_def ex2_raised_def)
  ultimately show ?thesis by simp
qed

lemma init_seven:
  "init_loop (+) (replicate (push_bit 1 (length [1, 2, 3, 4, 5, 6, 7::int])) None) 0
     [1, 2, 3, 4, 5, 6, 7] = Some (Inr (tree ex7))"
  unfolding ex7_def by code_simp

lemma construct_seven: "construct (+) [1, 2, 3, 4, 5, 6, 7] = Some (Inr ex7)"
  unfolding construct_def init_seven by (simp add: ex7_def)

lemma setitem_tree_seven:
  "setitem_tree (+) (tree ex7) 0 10 = Some (Inl (CombineOnNone,
     [None, Some 10, Some 12, Some 2, Some 19, Some 3, Some 7, Some 4, None,
      Some 5, Some 11, Some 6, None, Some 7]))"
  unfolding ex7_def by code_simp



lemma init_ex5:
  "init_loop (+) (replicate (push_bit 1 (length [1, 2, 3, 4, 5::int])) None) 0 [1, 2, 3, 4, 5]
   = Some (Inr (tree ex5))"
  unfolding ex5_def by code_simp

lemma construct_ex5: "construct (+) [1, 2, 3, 4, 5] = Some (Inr ex5)"
  unfolding construct_def init_ex5 by (simp add: ex5_def)

lemma reachable_ex5: "reachable ex5"
  using construct_ex5 by (rule reach_construct)

lemma setitem_tree_ex5:
  "setitem_tree (+) (tree ex5) (- 1) 5 = Some (Inl (IndexError, tree ex5_raised))"
  unfolding ex5_def ex5_raised_def by code_simp

lemma setitem_ex5: "setitem ex5 (- 1) 5 = Some (Inl (IndexError, ex5_raised))"
proof -
  have f: "func ex5 = (+)" by (simp add: ex5_def)
  have "setitem ex5 (- 1) 5 = Some (Inl (IndexError, ex5\<lparr>tree := tree ex5_raised\<rparr>))"
    by (rule setitem_tree_raise) (simp only: f setitem_tree_ex5)
  moreover have "ex5\<lparr>tree := tree ex5_raised\<rparr> = ex5_raised" by (simp add: ex5_def ex5_raised_def)
  ultimately show ?thesis by simp
qed

subsection \<open>Structures reached through calls that returned\<close>

text \<open>
  On a reachable structure with an associative combine operator, \<^verbatim>\<open>query(i, j)\<close> with
  \<open>0 \<le> i < j \<le> n\<close> returns the left-to-right fold of \<^verbatim>\<open>get(i)\<close>, ..., \<^verbatim>\<open>get(j - 1)\<close>:
  \<open>vs\<close> is the list of these elements, and the result is
  \<open>f (... (f (f v\<^sub>0 v\<^sub>1) v\<^sub>2) ...) v\<^sub>k\<close>, the arguments in index order. The operator need not be
  commutative.
\<close>

lemma query_left_fold:
  assumes "reachable t" and "assoc (func t)" and "0 \<le> i" and "i < j" and "j \<le> len t"
  shows "\<exists>vs. length vs = nat (j - i)
           \<and> (\<forall>d < nat (j - i). getitem t (i + int d) = Inr (Some (vs ! d)))
           \<and> query t i j = Some (Inr (Some (foldl (func t) (hd vs) (tl vs))))"
proof -
  from reachable_invar [OF assms(1)] obtain xs where inv: "invar (func t) (tree t) xs" ..
  have n: "len t = int (length xs)" using inv by (rule len_invar)
  define a b where "a = nat i" and "b = nat j"
  have ab: "i = int a" "j = int b" "a < b" "b \<le> length xs"
    using assms(3-5) n by (simp_all add: a_def b_def)
  let ?vs = "seg xs a b"
  have "length ?vs = nat (j - i)" using ab by (simp add: length_seg)
  moreover have "\<forall>d < nat (j - i). getitem t (i + int d) = Inr (Some (?vs ! d))"
  proof (intro allI impI)
    fix d assume "d < nat (j - i)"
    then have d: "d < b - a" using ab by simp
    then have "a + d < length xs" using ab by simp
    from getitem_invar [OF inv this] show "getitem t (i + int d) = Inr (Some (?vs ! d))"
      using ab d by (simp add: nth_seg)
  qed
  moreover have "query t i j = Some (Inr (Some (foldl (func t) (hd ?vs) (tl ?vs))))"
    unfolding ab(1,2) using inv assms(2) ab(3,4) by (rule query_fold)
  ultimately show ?thesis by blast
qed

lemma query_left_fold_example:
  "reachable exs \<and> assoc (func exs) \<and> (0::int) \<le> 1 \<and> (1::int) < 4 \<and> 4 \<le> len exs
   \<and> query exs 1 4 = Some (Inr (Some ''bcd''))
   \<and> (\<exists>vs. length vs = nat (4 - 1)
         \<and> (\<forall>d < nat (4 - 1). getitem exs (1 + int d) = Inr (Some (vs ! d)))
         \<and> query exs 1 4 = Some (Inr (Some (foldl (func exs) (hd vs) (tl vs)))))"
proof -
  have a: "assoc (func exs)" using assoc_append by (simp add: exs_def)
  have l: "4 \<le> len exs" unfolding exs_def by code_simp
  have q: "query exs 1 4 = Some (Inr (Some ''bcd''))" unfolding exs_def by code_simp
  have e: "\<exists>vs. length vs = nat (4 - 1)
         \<and> (\<forall>d < nat (4 - 1). getitem exs (1 + int d) = Inr (Some (vs ! d)))
         \<and> query exs 1 4 = Some (Inr (Some (foldl (func exs) (hd vs) (tl vs))))"
    by (rule query_left_fold [OF reachable_exs a _ _ l]) simp_all
  show ?thesis by (intro conjI reachable_exs a l q e) simp_all
qed

text \<open>
  On a reachable structure, that is after the constructor, after \<^verbatim>\<open>append\<close> and after
  every \<^verbatim>\<open>set\<close> that returned (\<^verbatim>\<open>get\<close>, \<^verbatim>\<open>query\<close> and \<^verbatim>\<open>len\<close> write nothing), every internal
  slot \<open>c\<close> (an even, nonzero coordinate) that holds a value is a node \<open>node m a\<close> above the
  leaves whose subtree is complete, \<open>(a + 1) * 2 ^ m \<le> n\<close>, and its value is the
  left-to-right fold of exactly the \<open>2 ^ m\<close> elements \<open>a * 2 ^ m\<close>, ... it covers, as
  \<^verbatim>\<open>get\<close> returns them now. The combine operator is associative, as the specification has it.
\<close>

lemma internal_slot_holds_fold:
  assumes "reachable t" and "assoc (func t)"
    and "0 < c" and "even c" and "c < int (length (tree t))" and "tree t ! nat c = Some v"
  shows "\<exists>m a vs. 0 < m \<and> c = node m a \<and> int ((a + 1) * 2 ^ m) \<le> len t
           \<and> length vs = 2 ^ m
           \<and> (\<forall>d < 2 ^ m. getitem t (int (a * 2 ^ m + d)) = Inr (Some (vs ! d)))
           \<and> v = foldl (func t) (hd vs) (tl vs)"
proof -
  from reachable_invar [OF assms(1)] obtain xs where inv: "invar (func t) (tree t) xs" ..
  have n: "len t = int (length xs)" using inv by (rule len_invar)
  from node_exists [OF assms(3)] obtain m a where c: "c = node m a" by blast
  have m: "0 < m" using assms(4) unfolding c by (simp add: node_even_iff)
  have "slot_ok (func t) (tree t) xs m a"
    using inv assms(5) unfolding c by (simp add: invar_def slots_ok_def)
  with assms(6) have co: "complete (length xs) m a" and v: "v = node_val (func t) xs m a"
    unfolding c slot_ok_def by (simp_all split: if_splits)
  let ?vs = "seg xs (a * 2 ^ m) ((a + 1) * 2 ^ m)"
  have le: "(a + 1) * 2 ^ m \<le> length xs" using co by (simp add: complete_def)
  have len: "length ?vs = 2 ^ m" using le by (simp add: length_seg)
  then have "?vs \<noteq> []" by auto
  then have "ofold (func t) ?vs = Some (foldl (func t) (hd ?vs) (tl ?vs))" by (rule ofold_Some)
  with node_val_fold [OF assms(2) co] v have f: "v = foldl (func t) (hd ?vs) (tl ?vs)" by simp
  have g: "\<forall>d < 2 ^ m. getitem t (int (a * 2 ^ m + d)) = Inr (Some (?vs ! d))"
  proof (intro allI impI)
    fix d :: nat assume d: "d < 2 ^ m"
    then have "a * 2 ^ m + d < length xs" using le by simp
    from getitem_invar [OF inv this] show "getitem t (int (a * 2 ^ m + d)) = Inr (Some (?vs ! d))"
      using le d by (simp add: nth_seg)
  qed
  have "int ((a + 1) * 2 ^ m) \<le> len t" unfolding n using le by (simp only: of_nat_le_iff)
  with m c len g f show ?thesis by blast
qed

lemma internal_slot_holds_fold_example:
  "reachable ex6 \<and> assoc (func ex6) \<and> (0::int) < 4 \<and> even (4::int)
   \<and> 4 < int (length (tree ex6)) \<and> tree ex6 ! nat 4 = Some 10
   \<and> (\<exists>m a vs. 0 < m \<and> 4 = node m a \<and> int ((a + 1) * 2 ^ m) \<le> len ex6
         \<and> length vs = 2 ^ m
         \<and> (\<forall>d < 2 ^ m. getitem ex6 (int (a * 2 ^ m + d)) = Inr (Some (vs ! d)))
         \<and> 10 = foldl (func ex6) (hd vs) (tl vs))"
proof -
  have a: "assoc (func ex6)" using assoc_plus by (simp add: ex6_def)
  have l: "4 < int (length (tree ex6))" by (simp add: ex6_def)
  have s: "tree ex6 ! nat 4 = Some 10" by (simp add: ex6_def eval_nat_numeral)
  have e: "\<exists>m a vs. 0 < m \<and> 4 = node m a \<and> int ((a + 1) * 2 ^ m) \<le> len ex6
         \<and> length vs = 2 ^ m
         \<and> (\<forall>d < 2 ^ m. getitem ex6 (int (a * 2 ^ m + d)) = Inr (Some (vs ! d)))
         \<and> 10 = foldl (func ex6) (hd vs) (tl vs)"
    by (rule internal_slot_holds_fold [OF reachable_ex6 a _ _ l s]) simp_all
  show ?thesis by (intro conjI reachable_ex6 a l s e) simp_all
qed

section \<open>The claims\<close>

text \<open>
  C1. The scenario of the specification, with integer addition and the initial values
  \<^verbatim>\<open>[1, 2, 3, 4, 5, 6]\<close>: \<^verbatim>\<open>query(0, 6)\<close> is 21, \<^verbatim>\<open>query(2, 5)\<close> is 12, \<^verbatim>\<open>get(3)\<close> is 4;
  after \<^verbatim>\<open>append(7)\<close> the length is 7 and \<^verbatim>\<open>query(0, 7)\<close> is 28. The claim goes on:
  \<^verbatim>\<open>set(2, 15)\<close> then succeeds. In the code it does not: the climb reaches coordinate 4,
  finds the coordinate 12 of its right sibling inside the buffer of length 14, and calls
  the combine operator on the content of slot 12, which is \<^verbatim>\<open>None\<close>, since element 7 does
  not exist yet. The leaf and the two ancestors below are written by then, so \<^verbatim>\<open>get(2)\<close>
  is 15 and \<^verbatim>\<open>query(0, 3)\<close> is 18 on the buffer the exception leaves behind.
\<close>

theorem scenario_setitem_raises:
  "construct (+) [1, 2, 3, 4, 5, 6] = Some (Inr ex6)
   \<and> query ex6 0 6 = Some (Inr (Some 21))
   \<and> query ex6 2 5 = Some (Inr (Some 12))
   \<and> getitem ex6 3 = Inr (Some 4)
   \<and> append ex6 7 = Some (Inr ex7)
   \<and> len ex7 = 7
   \<and> query ex7 0 7 = Some (Inr (Some 28))
   \<and> setitem ex7 2 15 = Some (Inl (CombineOnNone, ex7_raised))
   \<and> getitem ex7_raised 2 = Inr (Some 15)
   \<and> query ex7_raised 0 3 = Some (Inr (Some 18))"
proof -
  have "query ex6 0 6 = Some (Inr (Some 21))" "query ex6 2 5 = Some (Inr (Some 12))"
    "getitem ex6 3 = Inr (Some 4)"
    unfolding ex6_def by code_simp+
  moreover have "len ex7 = 7" "query ex7 0 7 = Some (Inr (Some 28))"
    unfolding ex7_def by code_simp+
  moreover have "getitem ex7_raised 2 = Inr (Some 15)" "query ex7_raised 0 3 = Some (Inr (Some 18))"
    unfolding ex7_raised_def by code_simp+
  ultimately show ?thesis
    using construct_ex6 append_ex6 setitem_ex7 by simp
qed

theorem scenario_setitem_raises_witness:
  "setitem ex7 2 15 = Some (Inl (CombineOnNone, ex7_raised))
   \<and> query ex7_raised 0 3 = Some (Inr (Some 18))"
  using scenario_setitem_raises by blast

text \<open>
  C2. The claim is that on every structure the code reaches \<^verbatim>\<open>query(i, j)\<close> with
  \<open>0 \<le> i < j \<le> n\<close> returns the left-to-right fold of \<^verbatim>\<open>get(i)\<close>, ..., \<^verbatim>\<open>get(j - 1)\<close>. On
  the structures reached through calls that returned it does, for every associative
  operator (\<open>query_left_fold\<close>). A \<^verbatim>\<open>__setitem__\<close> that raises leaves a structure too, and
  there it can fail: on the five elements of \<open>ex5\<close>, \<^verbatim>\<open>t[-1] = 5\<close> writes the last leaf,
  then slot 8 and slot 6 through negative coordinates, and raises \<^verbatim>\<open>IndexError\<close>. The
  elements are what they were, \<^verbatim>\<open>get(2)\<close> is 3 and \<^verbatim>\<open>get(3)\<close> is 4, and \<^verbatim>\<open>query(2, 4)\<close>
  returns the 19 of slot 6 instead of 7.
\<close>

theorem query_after_raised_setitem:
  "reachable ex5 \<and> assoc (func ex5)
   \<and> setitem ex5 (- 1) 5 = Some (Inl (IndexError, ex5_raised))
   \<and> len ex5_raised = 5
   \<and> getitem ex5_raised 2 = Inr (Some 3) \<and> getitem ex5_raised 3 = Inr (Some 4)
   \<and> query ex5_raised 2 4 = Some (Inr (Some 19))
   \<and> query ex5 2 4 = Some (Inr (Some 7))"
proof -
  have a: "assoc (func ex5)" using assoc_plus by (simp add: ex5_def)
  have "len ex5_raised = 5" "getitem ex5_raised 2 = Inr (Some 3)"
    "getitem ex5_raised 3 = Inr (Some 4)" "query ex5_raised 2 4 = Some (Inr (Some 19))"
    unfolding ex5_raised_def by code_simp+
  moreover have "query ex5 2 4 = Some (Inr (Some 7))" unfolding ex5_def by code_simp
  ultimately show ?thesis using reachable_ex5 a setitem_ex5 by simp
qed

theorem query_after_raised_setitem_witness:
  "setitem ex5 (- 1) 5 = Some (Inl (IndexError, ex5_raised))
   \<and> query ex5_raised 2 4 = Some (Inr (Some 19))"
  using query_after_raised_setitem by blast

text \<open>
  C3. The claim is that no operation leaves a stale aggregate: every internal slot that
  holds a value holds the fold of the elements its complete subtree covers. After the
  constructor, \<^verbatim>\<open>append\<close> and every \<^verbatim>\<open>set\<close> that returned this is so
  (\<open>internal_slot_holds_fold\<close>). The \<^verbatim>\<open>t[-1] = 5\<close> that raises on \<open>ex5\<close> breaks it twice:
  slot 8 holds 9, and with five elements the node at coordinate 8 covers the elements 0 to
  7 and is not complete; slot 6, the node over the elements 2 and 3, holds 19 while these
  elements are 3 and 4. Both slots are internal, inside the buffer, and read by later calls.
\<close>

theorem stale_slots_after_raised_setitem:
  "reachable ex5 \<and> assoc (func ex5)
   \<and> setitem ex5 (- 1) 5 = Some (Inl (IndexError, ex5_raised))
   \<and> len ex5_raised = 5
   \<and> 8 = node 3 0 \<and> tree ex5_raised ! 8 = Some 9 \<and> \<not> complete 5 3 0
   \<and> 6 = node 1 1 \<and> tree ex5_raised ! 6 = Some 19
   \<and> getitem ex5_raised 2 = Inr (Some 3) \<and> getitem ex5_raised 3 = Inr (Some 4)
   \<and> func ex5_raised 3 4 = 7"
proof -
  have a: "assoc (func ex5)" using assoc_plus by (simp add: ex5_def)
  have "len ex5_raised = 5" "getitem ex5_raised 2 = Inr (Some 3)"
    "getitem ex5_raised 3 = Inr (Some 4)"
    unfolding ex5_raised_def by code_simp+
  moreover have "tree ex5_raised ! 8 = Some 9" "tree ex5_raised ! 6 = Some 19"
    "func ex5_raised 3 4 = 7"
    by (simp_all add: ex5_raised_def eval_nat_numeral)
  moreover have "8 = node 3 0" "6 = node 1 1" "\<not> complete 5 3 0"
    by (simp_all add: node_def complete_def)
  ultimately show ?thesis using reachable_ex5 a setitem_ex5 by simp
qed

theorem stale_slots_after_raised_setitem_witness:
  "setitem ex5 (- 1) 5 = Some (Inl (IndexError, ex5_raised))
   \<and> tree ex5_raised ! 8 = Some 9 \<and> tree ex5_raised ! 6 = Some 19"
  using stale_slots_after_raised_setitem by blast

text \<open>
  C4. The claim is that no public operation hands \<^verbatim>\<open>None\<close> to the combine operator. The
  constructor, \<^verbatim>\<open>append\<close> and \<^verbatim>\<open>query\<close> on a valid range never do (\<open>construct_ok\<close>,
  \<open>append_ok\<close>, \<open>query_valid_nonerror\<close>: they return). \<^verbatim>\<open>__setitem__\<close> with a valid index
  does: on the structure built from \<^verbatim>\<open>[1, 2, 3, 4, 5, 6, 7]\<close>, which is \<open>ex7\<close>, the call
  \<^verbatim>\<open>t[0] = 10\<close> climbs to coordinate 4, finds the sibling coordinate 12 inside the buffer and
  calls the operator on slot 12, which is \<^verbatim>\<open>None\<close> as long as element 7 does not exist.
\<close>

theorem setitem_combines_none:
  "construct (+) [1, 2, 3, 4, 5, 6, 7] = Some (Inr ex7) \<and> len ex7 = 7
   \<and> (\<exists>t'. setitem ex7 0 10 = Some (Inl (CombineOnNone, t')))"
proof -
  have f: "func ex7 = (+)" by (simp add: ex7_def)
  have "\<exists>t'. setitem ex7 0 10 = Some (Inl (CombineOnNone, t'))"
    by (rule exI, rule setitem_tree_raise) (simp only: f setitem_tree_seven)
  moreover have "len ex7 = 7" unfolding ex7_def by code_simp
  ultimately show ?thesis using construct_seven by simp
qed

theorem setitem_combines_none_witness:
  "\<exists>t'. setitem ex7 0 10 = Some (Inl (CombineOnNone, t'))"
  using setitem_combines_none by blast

text \<open>
  C5. For every sequence \<open>xs @ [x]\<close> and every combine operator, associative or not, the
  constructor on \<open>xs @ [x]\<close> and the constructor on \<open>xs\<close> followed by \<^verbatim>\<open>append(x)\<close> both
  return, and they return the same structure: the same operator and the same buffer, slot
  by slot. Every \<^verbatim>\<open>get\<close> and every \<^verbatim>\<open>query\<close>, valid or not, therefore has the same result on
  both.
\<close>

theorem construct_append_equivalence:
  "\<exists>t t0 t1. construct f (xs @ [x]) = Some (Inr t)
     \<and> construct f xs = Some (Inr t0) \<and> append t0 x = Some (Inr t1)
     \<and> t1 = t
     \<and> (\<forall>i. getitem t1 i = getitem t i)
     \<and> (\<forall>i j. query t1 i j = query t i j)"
proof -
  from construct_ok [of f "xs @ [x]"] obtain tr where
    c: "construct f (xs @ [x]) = Some (Inr \<lparr>func = f, tree = tr\<rparr>)"
    and i: "invar f tr (xs @ [x])" by blast
  from construct_ok [of f xs] obtain tr0 where
    c0: "construct f xs = Some (Inr \<lparr>func = f, tree = tr0\<rparr>)"
    and i0: "invar f tr0 xs" by blast
  let ?t0 = "\<lparr>func = f, tree = tr0\<rparr>"
  have "invar (func ?t0) (tree ?t0) xs" using i0 by simp
  from append_ok [OF this, of x] obtain tr1 where
    a: "append ?t0 x = Some (Inr (?t0\<lparr>tree := tr1\<rparr>))"
    and i1: "invar f tr1 (xs @ [x])" by auto
  have "tr1 = tr" using i1 i by (rule invar_unique)
  then have "?t0\<lparr>tree := tr1\<rparr> = \<lparr>func = f, tree = tr\<rparr>" by simp
  with c c0 a show ?thesis by simp
qed

theorem construct_append_equivalence_witness:
  "\<exists>t t0 t1. construct (-) ([5, 3] @ [1::int]) = Some (Inr t)
     \<and> construct (-) [5, 3] = Some (Inr t0) \<and> append t0 1 = Some (Inr t1)
     \<and> t1 = t
     \<and> (\<forall>i. getitem t1 i = getitem t i)
     \<and> (\<forall>i j. query t1 i j = query t i j)"
  by (rule construct_append_equivalence)




text \<open>
  C7. The claim is that an operation that fails on an index or a range outside its
  precondition has not written to the buffer. \<^verbatim>\<open>get\<close> and \<^verbatim>\<open>query\<close> write nothing, and
  \<^verbatim>\<open>set(i, v)\<close> with \<open>i < -n\<close> or \<open>i \<ge> n\<close> raises at its first write
  (\<open>failed_call_leaves_buffer\<close>). But \<^verbatim>\<open>__setitem__\<close> checks nothing before that write, where
  \<^verbatim>\<open>query\<close> asserts \<open>0 \<le> i\<close> first: with \<open>-n \<le> i < 0\<close> the write lands on the leaf of
  element \<open>n + i\<close>, the climb goes on with a negative coordinate and ends in an exception.
  On the two elements of \<open>ex2\<close>, \<^verbatim>\<open>t[-1] = 9\<close> writes the last leaf and its parent and then
  raises \<^verbatim>\<open>IndexError\<close> at coordinate \<open>-6\<close>: the buffer is modified.
\<close>

theorem setitem_writes_before_raising:
  "reachable ex2 \<and> len ex2 = 2 \<and> \<not> (0 \<le> (- 1::int))
   \<and> setitem ex2 (- 1) 9 = Some (Inl (IndexError, ex2_raised))
   \<and> tree ex2_raised \<noteq> tree ex2"
proof -
  have "len ex2 = 2" unfolding ex2_def by code_simp
  moreover have "tree ex2_raised \<noteq> tree ex2" by (simp add: ex2_def ex2_raised_def)
  ultimately show ?thesis using reachable_ex2 setitem_ex2 by simp
qed

theorem setitem_writes_before_raising_witness:
  "setitem ex2 (- 1) 9 = Some (Inl (IndexError, ex2_raised)) \<and> tree ex2_raised \<noteq> tree ex2"
  using setitem_writes_before_raising by blast







end
